theory Spec2Isabelle
  imports Complex_Main "HOL-Library.Word"
begin

unbundle bit_operations_syntax

section \<open>Building blocks of \<open>deepvoice3_pytorch/modules.py\<close>\<close>

text \<open>
  The module composes tensor primitives into positional encodings, weight-normalised
  convolution factories, a gated highway convolution and a length-to-mask helper.
  Tensors are nested lists, outermost axis first; their entries are real numbers (the
  rounding of the 32-bit floats is not part of the model), except for the byte mask of
  the mask helper, whose entries are 8-bit words. Every exception the Python can raise is
  a value of \<open>error\<close>, returned as \<open>Inl\<close>.
\<close>

datatype index_fault = TooManyIndices | OutOfRange

datatype error =
    AssertionError
  | IndexError index_fault
  | ZeroDivisionError
  | ValueError
  | RuntimeError

definition bindE :: "error + 'a \<Rightarrow> ('a \<Rightarrow> error + 'b) \<Rightarrow> error + 'b" where
  "bindE m f = (case m of Inl e \<Rightarrow> Inl e | Inr v \<Rightarrow> f v)"

fun mapE :: "('a \<Rightarrow> error + 'b) \<Rightarrow> 'a list \<Rightarrow> error + 'b list" where
  "mapE f [] = Inr []"
| "mapE f (x # xs) = bindE (f x) (\<lambda>y. bindE (mapE f xs) (\<lambda>ys. Inr (y # ys)))"

subsection \<open>Length-to-mask helper\<close>

text \<open>
  \<^verbatim>\<open>mask = memory.data.new(memory.size(0), memory.size(1)).byte().zero_()\<close> allocates a
  tensor of unsigned bytes, all zero; of \<open>memory\<close> only its first two sizes are read. A
  byte is an 8-bit word, and \<^verbatim>\<open>~mask\<close> on a byte tensor is the bitwise complement of every
  entry: 0 becomes 255 and 1 becomes 254.
\<close>

definition size0 :: "'a list \<Rightarrow> nat" where
  "size0 x = length x"

definition size1 :: "'a list list \<Rightarrow> nat" where
  "size1 x = (case x of [] \<Rightarrow> 0 | r # _ \<Rightarrow> length r)"

text \<open>The stop index of the Python slice \<^verbatim>\<open>[:l]\<close> on a sequence of length \<open>n\<close>: a negative
  bound counts from the end, and both ends are clamped.\<close>

definition slice_stop :: "nat \<Rightarrow> int \<Rightarrow> nat" where
  "slice_stop n l = (if l < 0 then nat (max 0 (int n + l)) else min (nat l) n)"

text \<open>\<^verbatim>\<open>row[:l] = 1\<close>\<close>

definition assign_prefix :: "8 word list \<Rightarrow> int \<Rightarrow> 8 word list" where
  "assign_prefix row l =
     replicate (slice_stop (length row) l) 1 @ drop (slice_stop (length row) l) row"

text \<open>\<^verbatim>\<open>for idx, l in enumerate(memory_lengths): mask[idx][:l] = 1\<close>; \<^verbatim>\<open>mask[idx]\<close>
  raises when there are more lengths than rows.\<close>

fun fill_mask ::
  "nat \<Rightarrow> int list \<Rightarrow> 8 word list list \<Rightarrow> error + 8 word list list" where
  "fill_mask idx [] msk = Inr msk"
| "fill_mask idx (l # ls) msk =
     (if idx < length msk
      then fill_mask (Suc idx) ls (msk[idx := assign_prefix (msk ! idx) l])
      else Inl (IndexError OutOfRange))"

definition get_mask_from_lengths ::
  "real list list list \<Rightarrow> int list \<Rightarrow> error + 8 word list list" where
  "get_mask_from_lengths memory memory_lengths =
     bindE (fill_mask 0 memory_lengths (replicate (size0 memory) (replicate (size1 memory) 0)))
       (\<lambda>msk. Inr (map (map (\<lambda>v. NOT v)) msk))"

subsection \<open>Positional encoding\<close>

text \<open>
  \<^verbatim>\<open>np.array\<close> of a list of equally long rows is a matrix, except that the empty list
  gives a one-dimensional array of shape (0,). A tensor therefore knows whether it has
  one axis or two.
\<close>

datatype ndarray = Arr1 "real list" | Arr2 "real list list"

definition np_array :: "real list list \<Rightarrow> ndarray" where
  "np_array rows = (if rows = [] then Arr1 [] else Arr2 rows)"

text \<open>The indices the slice \<^verbatim>\<open>start::step\<close> selects on an axis of length \<open>n\<close>.\<close>

definition slice_from :: "nat \<Rightarrow> nat \<Rightarrow> nat \<Rightarrow> nat list" where
  "slice_from start step n = map (\<lambda>q. start + step * q) [0..<(n + step - 1 - start) div step]"

text \<open>Reading and writing one entry, with the bounds check of the tensor library.\<close>

definition get_item :: "real list list \<Rightarrow> nat \<Rightarrow> nat \<Rightarrow> error + real" where
  "get_item y r c =
     (if r < length y \<and> c < length (y ! r) then Inr (y ! r ! c) else Inl (IndexError OutOfRange))"

definition set_item :: "nat \<Rightarrow> nat \<Rightarrow> real \<Rightarrow> real list list \<Rightarrow> error + real list list" where
  "set_item r c v y =
     (if r < length y \<and> c < length (y ! r) then Inr (y[r := (y ! r)[c := v]])
      else Inl (IndexError OutOfRange))"

fun foldE :: "('a \<Rightarrow> 's \<Rightarrow> error + 's) \<Rightarrow> 'a list \<Rightarrow> 's \<Rightarrow> error + 's" where
  "foldE f [] s = Inr s"
| "foldE f (x # xs) s = bindE (f x s) (foldE f xs)"

text \<open>\<^verbatim>\<open>y[rows, cols]\<close> as a value, and the assignment \<^verbatim>\<open>y[rows, cols] = vals\<close>, which
  needs \<open>vals\<close> to have the shape of the slice.\<close>

definition get_slice :: "real list list \<Rightarrow> nat list \<Rightarrow> nat list \<Rightarrow> error + real list list" where
  "get_slice y rows cols = mapE (\<lambda>r. mapE (\<lambda>c. get_item y r c) cols) rows"

definition set_slice ::
  "nat list \<Rightarrow> nat list \<Rightarrow> real list list \<Rightarrow> real list list \<Rightarrow> error + real list list" where
  "set_slice rows cols vals y =
     (if length vals = length rows \<and> (\<forall>vs \<in> set vals. length vs = length cols)
      then foldE (\<lambda>(r, vs). foldE (\<lambda>(c, v). set_item r c v) (zip cols vs)) (zip rows vals) y
      else Inl RuntimeError)"

text \<open>
  The two lines shared by the table builder and the re-encoding:
  \<^verbatim>\<open>y[1:, 0::2] = torch.sin(y[1:, 0::2])\<close> and \<^verbatim>\<open>y[1:, 1::2] = torch.cos(y[1:, 1::2])\<close>,
  on a tensor with two axes.
\<close>

definition sin_cos_rows :: "real list list \<Rightarrow> error + real list list" where
  "sin_cos_rows y =
     bindE (get_slice y [1..<size0 y] (slice_from 0 2 (size1 y))) (\<lambda>a.
     bindE (set_slice [1..<size0 y] (slice_from 0 2 (size1 y)) (map (map sin) a) y) (\<lambda>y1.
     bindE (get_slice y1 [1..<size0 y1] (slice_from 1 2 (size1 y1))) (\<lambda>b.
     set_slice [1..<size0 y1] (slice_from 1 2 (size1 y1)) (map (map cos) b) y1)))"

text \<open>Indexing with two slices needs two axes.\<close>

definition sin_cos :: "ndarray \<Rightarrow> error + ndarray" where
  "sin_cos y =
     (case y of
        Arr1 v \<Rightarrow> Inl (IndexError TooManyIndices)
      | Arr2 m \<Rightarrow> bindE (sin_cos_rows m) (\<lambda>m1. Inr (Arr2 m1)))"

text \<open>\<^verbatim>\<open>def position_encoding_init(n_position, d_pos_vec, position_rate=1.0, sinusoidal=True)\<close>.
  \<^verbatim>\<open>2 * i / d_pos_vec\<close> is a true division and \<^verbatim>\<open>np.power\<close> a real power.\<close>

definition position_encoding_init :: "nat \<Rightarrow> nat \<Rightarrow> real \<Rightarrow> bool \<Rightarrow> error + ndarray" where
  "position_encoding_init n_position d_pos_vec position_rate sinusoidal =
     (let position_enc = np_array (map (\<lambda>pos.
            if pos \<noteq> 0
            then map (\<lambda>i. position_rate * real pos / 10000 powr (2 * real i / real d_pos_vec))
                   [0..<d_pos_vec]
            else replicate d_pos_vec 0) [0..<n_position])
      in if sinusoidal then sin_cos position_enc else Inr position_enc)"

text \<open>\<^verbatim>\<open>def sinusoidal_encode(x, w)\<close>: \<^verbatim>\<open>y = w * x.clone()\<close>, then the two overwrites.\<close>

definition scale :: "real \<Rightarrow> ndarray \<Rightarrow> ndarray" where
  "scale w x = (case x of Arr1 v \<Rightarrow> Arr1 (map ((*) w) v) | Arr2 m \<Rightarrow> Arr2 (map (map ((*) w)) m))"

definition sinusoidal_encode :: "ndarray \<Rightarrow> real \<Rightarrow> error + ndarray" where
  "sinusoidal_encode x w = sin_cos (scale w x)"

text \<open>The weight a \<^verbatim>\<open>SinusoidalEncoding\<close> layer stores, and the table its \<^verbatim>\<open>forward\<close> looks
  indices up in.\<close>

definition SinusoidalEncoding_weight :: "nat \<Rightarrow> nat \<Rightarrow> error + ndarray" where
  "SinusoidalEncoding_weight num_embeddings embedding_dim =
     position_encoding_init num_embeddings embedding_dim 1 False"

definition SinusoidalEncoding_table :: "nat \<Rightarrow> nat \<Rightarrow> real \<Rightarrow> error + ndarray" where
  "SinusoidalEncoding_table num_embeddings embedding_dim w =
     bindE (SinusoidalEncoding_weight num_embeddings embedding_dim) (\<lambda>x. sinusoidal_encode x w)"

subsection \<open>Layer factories\<close>

text \<open>
  A convolution layer as the factories leave it: its hyper-parameters, its weight of shape
  (out_channels, in_channels, kernel_size), its bias, and the buffer of its incremental
  mode, which does not exist yet. The constructors of the underlying primitives
  (\<^verbatim>\<open>Conv1d\<close>, \<^verbatim>\<open>LinearizedConvolution\<close>, \<^verbatim>\<open>ConvTBC\<close>) are the tensor framework's; \<open>new_conv\<close>
  stands for them: it records the arguments and allocates the parameters, which fails
  for a negative size.
\<close>

record conv1d =
  in_channels :: int
  out_channels :: int
  kernel_size :: int
  padding :: int
  dilation :: int
  weight :: "real list list list"
  bias :: "real list"
  input_buffer :: "real list list list option"

definition new_conv :: "int \<Rightarrow> int \<Rightarrow> int \<Rightarrow> int \<Rightarrow> int \<Rightarrow> error + conv1d" where
  "new_conv in_ch out_ch ksize pad dil =
     (if in_ch < 0 \<or> out_ch < 0 \<or> ksize < 0 then Inl RuntimeError
      else Inr \<lparr>in_channels = in_ch, out_channels = out_ch, kernel_size = ksize,
                padding = pad, dilation = dil,
                weight = replicate (nat out_ch) (replicate (nat in_ch) (replicate (nat ksize) 0)),
                bias = replicate (nat out_ch) 0, input_buffer = None\<rparr>)"

text \<open>Python's \<^verbatim>\<open>/\<close> on floats and \<^verbatim>\<open>math.sqrt\<close>.\<close>

definition py_truediv :: "real \<Rightarrow> real \<Rightarrow> error + real" where
  "py_truediv a b = (if b = 0 then Inl ZeroDivisionError else Inr (a / b))"

definition math_sqrt :: "real \<Rightarrow> error + real" where
  "math_sqrt a = (if a < 0 then Inl ValueError else Inr (sqrt a))"

text \<open>
  The three lines every convolution factory ends with:
  \<^verbatim>\<open>std = math.sqrt((std_mul * (1.0 - dropout)) / (m.kernel_size[0] * in_channels))\<close>,
  \<^verbatim>\<open>m.weight.data.normal_(mean=0, std=std)\<close>, \<^verbatim>\<open>m.bias.data.zero_()\<close>.
  The random draw is the parameter \<open>normal\<close>: given the standard deviation and the tensor
  to fill, it returns the filled tensor. \<^verbatim>\<open>weight_norm\<close> re-parametrises the weight without
  changing its value at construction, so it does not appear.
\<close>

definition init_params ::
  "(real \<Rightarrow> real list list list \<Rightarrow> real list list list) \<Rightarrow> int \<Rightarrow> real \<Rightarrow> real
     \<Rightarrow> conv1d \<Rightarrow> error + conv1d" where
  "init_params normal in_ch std_mul p_drop m =
     bindE (py_truediv (std_mul * (1 - p_drop)) (real_of_int (kernel_size m * in_ch))) (\<lambda>q.
     bindE (math_sqrt q) (\<lambda>std.
     Inr (m\<lparr>weight := normal std (weight m), bias := map (\<lambda>_. 0) (bias m)\<rparr>)))"

text \<open>An omitted keyword argument is \<open>None\<close>; the factory's default then applies.\<close>

definition or_default :: "'a \<Rightarrow> 'a option \<Rightarrow> 'a" where
  "or_default d v = (case v of None \<Rightarrow> d | Some a \<Rightarrow> a)"

text \<open>\<^verbatim>\<open>def Conv1d(in_channels, out_channels, kernel_size, dropout=0, std_mul=4.0, **kwargs)\<close>;
  the keyword arguments that reach the constructor are the padding and the dilation.\<close>

definition Conv1d ::
  "(real \<Rightarrow> real list list list \<Rightarrow> real list list list) \<Rightarrow> int \<Rightarrow> int \<Rightarrow> int
     \<Rightarrow> real option \<Rightarrow> real option \<Rightarrow> int option \<Rightarrow> int option \<Rightarrow> error + conv1d" where
  "Conv1d normal in_ch out_ch ksize p_drop std_mul pad dil =
     bindE (new_conv in_ch out_ch ksize (or_default 0 pad) (or_default 1 dil))
       (init_params normal in_ch (or_default 4 std_mul) (or_default 0 p_drop))"

text \<open>\<^verbatim>\<open>def LinearizedConv1d(in_channels, out_channels, kernel_size, dilation=(1,),
  std_mul=4.0, dropout=0, **kwargs)\<close>. The dilation is a tuple, read at index 0; it is
  not passed on to the constructor.\<close>

definition tuple_first :: "int list \<Rightarrow> error + int" where
  "tuple_first t = (case t of [] \<Rightarrow> Inl (IndexError OutOfRange) | d # _ \<Rightarrow> Inr d)"

definition py_assert :: "bool \<Rightarrow> error + unit" where
  "py_assert c = (if c then Inr () else Inl AssertionError)"

definition LinearizedConv1d ::
  "(real \<Rightarrow> real list list list \<Rightarrow> real list list list) \<Rightarrow> int \<Rightarrow> int \<Rightarrow> int
     \<Rightarrow> int list option \<Rightarrow> real option \<Rightarrow> real option \<Rightarrow> int option \<Rightarrow> error + conv1d" where
  "LinearizedConv1d normal in_ch out_ch ksize dil std_mul p_drop pad =
     bindE (tuple_first (or_default [1] dil)) (\<lambda>d0.
     bindE (py_assert (d0 = 1)) (\<lambda>_.
     bindE (new_conv in_ch out_ch ksize (or_default 0 pad) 1)
       (init_params normal in_ch (or_default 4 std_mul) (or_default 0 p_drop))))"

text \<open>\<^verbatim>\<open>def ConvTBC(in_channels, out_channels, kernel_size, dilation=(1,), std_mul=4.0,
  dropout=0, **kwargs)\<close>\<close>

definition ConvTBC ::
  "(real \<Rightarrow> real list list list \<Rightarrow> real list list list) \<Rightarrow> int \<Rightarrow> int \<Rightarrow> int
     \<Rightarrow> int list option \<Rightarrow> real option \<Rightarrow> real option \<Rightarrow> int option \<Rightarrow> error + conv1d" where
  "ConvTBC normal in_ch out_ch ksize dil std_mul p_drop pad =
     bindE (tuple_first (or_default [1] dil)) (\<lambda>d0.
     bindE (py_assert (d0 = 1)) (\<lambda>_.
     bindE (new_conv in_ch out_ch ksize (or_default 0 pad) 1)
       (init_params normal in_ch (or_default 4 std_mul) (or_default 0 p_drop))))"

subsection \<open>Highway convolution block: construction\<close>

record highway_conv1d =
  causal :: bool
  dropout :: real
  glu :: bool
  training :: bool
  conv :: conv1d

text \<open>\<^verbatim>\<open>def __init__(self, in_channels, out_channels, kernel_size=1, padding=None,
  dilation=1, causal=False, dropout=0, std_mul=None, glu=False)\<close>. \<^verbatim>\<open>//\<close> is floor
  division, as \<open>div\<close> on \<open>int\<close>. A new module is in training mode.\<close>

definition HighwayConv1d ::
  "(real \<Rightarrow> real list list list \<Rightarrow> real list list list) \<Rightarrow> int \<Rightarrow> int \<Rightarrow> int option
     \<Rightarrow> int option \<Rightarrow> int option \<Rightarrow> bool option \<Rightarrow> real option \<Rightarrow> real option \<Rightarrow> bool option
     \<Rightarrow> error + highway_conv1d" where
  "HighwayConv1d normal in_ch out_ch ksize0 pad dil0 causal0 drop0 std_mul0 glu0 =
     (let ksize = or_default 1 ksize0; dil = or_default 1 dil0; is_causal = or_default False causal0;
          p_drop = or_default 0 drop0; is_glu = or_default False glu0;
          std_mul = (case std_mul0 of None \<Rightarrow> if is_glu then 4 else 1 | Some s \<Rightarrow> s);
          pad1 = (case pad of
                    None \<Rightarrow> if is_causal then (ksize - 1) * dil else (ksize - 1) div 2 * dil
                  | Some p \<Rightarrow> p)
      in bindE (Conv1d normal in_ch (2 * out_ch) ksize (Some p_drop) (Some std_mul)
                  (Some pad1) (Some dil))
           (\<lambda>c. Inr \<lparr>causal = is_causal, dropout = p_drop, glu = is_glu, training = True,
                      conv = c\<rparr>))"

subsection \<open>Tensor primitives of the forward pass\<close>

text \<open>A batch-mode tensor has shape (B, C, T): batch, channels, time.\<close>

definition size2 :: "'a list list list \<Rightarrow> nat" where
  "size2 x = (case x of [] \<Rightarrow> 0 | xb # _ \<Rightarrow> size1 xb)"

definition sigmoid :: "real \<Rightarrow> real" where
  "sigmoid v = 1 / (1 + exp (- v))"

text \<open>Elementwise binary operations broadcast an axis of length 1 against the other
  operand's axis and reject any other mismatch.\<close>

definition broadcast2 :: "('a \<Rightarrow> 'b \<Rightarrow> error + 'c) \<Rightarrow> 'a list \<Rightarrow> 'b list \<Rightarrow> error + 'c list" where
  "broadcast2 f xs ys =
     (if length xs = length ys then mapE (\<lambda>(x, y). f x y) (zip xs ys)
      else if length xs = 1 then mapE (f (hd xs)) ys
      else if length ys = 1 then mapE (\<lambda>x. f x (hd ys)) xs
      else Inl RuntimeError)"

definition ewise ::
  "(real \<Rightarrow> real \<Rightarrow> real) \<Rightarrow> real list list list \<Rightarrow> real list list list
     \<Rightarrow> error + real list list list" where
  "ewise f = broadcast2 (broadcast2 (broadcast2 (\<lambda>a b. Inr (f a b))))"

definition tmap :: "(real \<Rightarrow> real) \<Rightarrow> real list list list \<Rightarrow> real list list list" where
  "tmap f = map (map (map f))"

text \<open>\<^verbatim>\<open>F.dropout(x, p, training)\<close>: the probability must lie in [0, 1]; in training mode
  with a positive probability the input is multiplied by a random mask, which is the
  parameter \<open>noise\<close>.\<close>

definition F_dropout ::
  "(real list list list \<Rightarrow> real list list list) \<Rightarrow> real list list list \<Rightarrow> real \<Rightarrow> bool
     \<Rightarrow> error + real list list list" where
  "F_dropout noise x p is_training =
     (if p < 0 \<or> 1 < p then Inl ValueError
      else Inr (if is_training \<and> 0 < p then noise x else x))"

text \<open>\<^verbatim>\<open>F.glu(x, dim)\<close> halves an axis of even length and multiplies the first half by the
  sigmoid of the second; on the channel axis (\<^verbatim>\<open>dim=1\<close>) and on the last axis.\<close>

definition F_glu_dim1 :: "real list list list \<Rightarrow> error + real list list list" where
  "F_glu_dim1 x =
     (if odd (size1 x) then Inl RuntimeError
      else Inr (map (\<lambda>xb. map2 (map2 (\<lambda>a b. a * sigmoid b))
                          (take (size1 x div 2) xb) (drop (size1 x div 2) xb)) x))"

definition F_glu_last :: "real list list list \<Rightarrow> error + real list list list" where
  "F_glu_last x =
     (if odd (size2 x) then Inl RuntimeError
      else Inr (map (map (\<lambda>row. map2 (\<lambda>a b. a * sigmoid b)
                          (take (size2 x div 2) row) (drop (size2 x div 2) row))) x))"

text \<open>\<^verbatim>\<open>x.split(n, dim)\<close> cuts an axis into chunks of length \<open>n\<close> (the last one may be
  shorter); \<^verbatim>\<open>a, b = ...\<close> needs exactly two of them.\<close>

definition split_dim1 :: "nat \<Rightarrow> real list list list \<Rightarrow> error + real list list list list" where
  "split_dim1 n x =
     (if n = 0 then Inl RuntimeError
      else Inr (map (\<lambda>i. map (\<lambda>xb. take n (drop (i * n) xb)) x)
                  [0..<(size1 x + n - 1) div n]))"

definition split_last :: "nat \<Rightarrow> real list list list \<Rightarrow> error + real list list list list" where
  "split_last n x =
     (if n = 0 then Inl RuntimeError
      else Inr (map (\<lambda>i. map (map (\<lambda>row. take n (drop (i * n) row))) x)
                  [0..<(size2 x + n - 1) div n]))"

definition unpack2 :: "'a list \<Rightarrow> error + 'a \<times> 'a" where
  "unpack2 xs = (case xs of [a, b] \<Rightarrow> Inr (a, b) | _ \<Rightarrow> Inl ValueError)"

subsection \<open>The convolution layer's two modes\<close>

text \<open>
  Modelled from the spec: the class \<^verbatim>\<open>Conv1d\<close> of \<^verbatim>\<open>deepvoice3_pytorch/conv.py\<close>, which the
  Highway block calls, is not among the sources. Its batch mode is the framework's
  one-dimensional convolution on (B, C, T) input with stride 1: the input is padded with
  \<open>padding\<close> zeros on both sides of the time axis, and output channel \<open>o\<close> at time \<open>t\<close> is
  the bias plus the sum, over input channels and kernel taps \<open>j\<close>, of the weight times the
  padded input at time \<open>t + j * dilation\<close>; the output has
  \<open>T + 2 * padding - dilation * (kernel_size - 1)\<close> time steps, which must be at least one.
\<close>

definition pad_zeros :: "nat \<Rightarrow> real list \<Rightarrow> real list" where
  "pad_zeros p xs = replicate p 0 @ xs @ replicate p 0"

definition dot_kernel :: "real list \<Rightarrow> real list \<Rightarrow> nat \<Rightarrow> nat \<Rightarrow> real" where
  "dot_kernel kern chan t d = (\<Sum>j\<leftarrow>[0..<length kern]. kern ! j * chan ! (t + j * d))"

definition conv_point :: "real list list \<Rightarrow> real list list \<Rightarrow> nat \<Rightarrow> nat \<Rightarrow> real" where
  "conv_point w_o chans t d = (\<Sum>(kern, chan)\<leftarrow>zip w_o chans. dot_kernel kern chan t d)"

definition rect :: "'a list list \<Rightarrow> bool" where
  "rect xb \<longleftrightarrow> (\<forall>r \<in> set xb. length r = size1 xb)"

definition wf_conv :: "conv1d \<Rightarrow> bool" where
  "wf_conv cv \<longleftrightarrow>
     length (weight cv) = nat (out_channels cv) \<and> length (bias cv) = nat (out_channels cv)
     \<and> (\<forall>w_o \<in> set (weight cv). length w_o = nat (in_channels cv)
           \<and> (\<forall>kern \<in> set w_o. length kern = nat (kernel_size cv)))"

definition conv_element :: "conv1d \<Rightarrow> real list list \<Rightarrow> error + real list list" where
  "conv_element cv xb =
     (let k = kernel_size cv; d = dilation cv; p = padding cv;
          len = int (size1 xb) + 2 * p - d * (k - 1)
      in if int (length xb) \<noteq> in_channels cv \<or> \<not> rect xb \<or> k < 1 \<or> d < 1 \<or> p < 0 \<or> len < 1
         then Inl RuntimeError
         else Inr (map (\<lambda>(w_o, b_o).
                     map (\<lambda>t. b_o + conv_point w_o (map (pad_zeros (nat p)) xb) t (nat d))
                       [0..<nat len])
                   (zip (weight cv) (bias cv))))"

definition conv_forward :: "conv1d \<Rightarrow> real list list list \<Rightarrow> error + real list list list" where
  "conv_forward cv x = mapE (conv_element cv) x"

text \<open>
  Modelled from the spec: the incremental mode of the same missing class. The layer owns
  a sliding buffer of the past inputs, as long as the kernel's receptive field
  \<open>(kernel_size - 1) * dilation + 1\<close>; it is created, filled with zeros, on the first
  incremental call. A call takes one time step in the layout (B, 1, C), shifts the buffer
  by one step, appends the new step and returns, in the layout (B, 1, out_channels), the
  convolution of the kernel with the buffer.
\<close>

definition receptive_field :: "conv1d \<Rightarrow> nat" where
  "receptive_field cv = nat ((kernel_size cv - 1) * dilation cv + 1)"

definition channels_of :: "nat \<Rightarrow> real list list \<Rightarrow> real list list" where
  "channels_of n window = map (\<lambda>c. map (\<lambda>step. step ! c) window) [0..<n]"

definition conv_incremental_forward ::
  "conv1d \<Rightarrow> real list list list \<Rightarrow> error + real list list list \<times> conv1d" where
  "conv_incremental_forward cv x =
     (let old = (case input_buffer cv of
                   None \<Rightarrow> replicate (length x)
                             (replicate (receptive_field cv) (replicate (nat (in_channels cv)) 0))
                 | Some b \<Rightarrow> b)
      in if kernel_size cv < 1 \<or> dilation cv < 1 \<or> length old \<noteq> length x
            \<or> (\<exists>xb \<in> set x. length xb \<noteq> 1 \<or> int (length (hd xb)) \<noteq> in_channels cv)
         then Inl RuntimeError
         else let buf = map2 (\<lambda>window xb. tl window @ [last xb]) old x
              in Inr (map (\<lambda>window.
                        [map (\<lambda>(w_o, b_o).
                           b_o + conv_point w_o (channels_of (nat (in_channels cv)) window) 0
                                   (nat (dilation cv)))
                         (zip (weight cv) (bias cv))]) buf,
                      cv\<lparr>input_buffer := Some buf\<rparr>))"

definition conv_clear_buffer :: "conv1d \<Rightarrow> conv1d" where
  "conv_clear_buffer cv = cv\<lparr>input_buffer := None\<rparr>"

subsection \<open>Highway convolution block: forward pass\<close>

text \<open>
  \<^verbatim>\<open>def _forward(self, x, is_incremental)\<close>. The block is returned with the result, since
  the incremental mode updates the buffer of its convolution.
  \<^verbatim>\<open>x[:, :, :residual.size(-1)]\<close> keeps at most as many time steps as the input has.
\<close>

definition forward' ::
  "(real list list list \<Rightarrow> real list list list) \<Rightarrow> highway_conv1d \<Rightarrow> real list list list \<Rightarrow> bool
     \<Rightarrow> error + real list list list \<times> highway_conv1d" where
  "forward' noise m x is_incremental =
     (let residual = x in
      bindE (F_dropout noise x (dropout m) (training m)) (\<lambda>x1.
      bindE (if is_incremental
             then conv_incremental_forward (conv m) x1
             else bindE (conv_forward (conv m) x1) (\<lambda>x2.
                    Inr (if causal m then map (map (take (size2 residual))) x2 else x2, conv m)))
        (\<lambda>(x3, cv).
      bindE (if glu m
             then bindE (if is_incremental then F_glu_last x3 else F_glu_dim1 x3) (\<lambda>g.
                  bindE (ewise (+) g residual) (\<lambda>s. Inr (tmap (\<lambda>v. v * sqrt 0.5) s)))
             else bindE (bindE (if is_incremental then split_last (size2 x3 div 2) x3
                                else split_dim1 (size1 x3 div 2) x3) unpack2) (\<lambda>(a, b).
                  let T = tmap sigmoid b in
                  bindE (ewise (*) T a) (\<lambda>ta.
                  bindE (ewise (*) (tmap (\<lambda>v. 1 - v) T) residual) (\<lambda>tr.
                  ewise (+) ta tr))))
        (\<lambda>y. Inr (y, m\<lparr>conv := cv\<rparr>)))))"

definition forward ::
  "(real list list list \<Rightarrow> real list list list) \<Rightarrow> highway_conv1d \<Rightarrow> real list list list
     \<Rightarrow> error + real list list list" where
  "forward noise m x = bindE (forward' noise m x False) (\<lambda>(y, m1). Inr y)"

definition incremental_forward ::
  "(real list list list \<Rightarrow> real list list list) \<Rightarrow> highway_conv1d \<Rightarrow> real list list list
     \<Rightarrow> error + real list list list \<times> highway_conv1d" where
  "incremental_forward noise m x = forward' noise m x True"

definition clear_buffer :: "highway_conv1d \<Rightarrow> highway_conv1d" where
  "clear_buffer m = m\<lparr>conv := conv_clear_buffer (conv m)\<rparr>"

subsection \<open>Streaming a sequence through the incremental mode\<close>

text \<open>
  The statement "incremental forward called T times on the successive time steps,
  outputs concatenated" in the spec's words: \<open>time_steps\<close> cuts a batch input of shape
  (B, C, T) into its T steps in the incremental layout (B, 1, C), \<open>incremental_run\<close> feeds
  them to the block one after the other, \<open>cat_dim1\<close> concatenates the outputs along the
  time axis into (B, T, C), and \<open>transpose12\<close> brings a batch result (B, C, T) into that
  layout.
\<close>

definition time_steps :: "real list list list \<Rightarrow> real list list list list" where
  "time_steps x = map (\<lambda>t. map (\<lambda>xb. [map (\<lambda>chan. chan ! t) xb]) x) [0..<size2 x]"

fun incremental_run ::
  "(real list list list \<Rightarrow> real list list list) \<Rightarrow> highway_conv1d \<Rightarrow> real list list list list
     \<Rightarrow> error + real list list list list \<times> highway_conv1d" where
  "incremental_run noise m [] = Inr ([], m)"
| "incremental_run noise m (x # xs) =
     bindE (incremental_forward noise m x) (\<lambda>(y, m1).
     bindE (incremental_run noise m1 xs) (\<lambda>(ys, m2). Inr (y # ys, m2)))"

definition cat_dim1 :: "real list list list list \<Rightarrow> real list list list" where
  "cat_dim1 ys =
     (case ys of [] \<Rightarrow> [] | y # _ \<Rightarrow> map (\<lambda>b. concat (map (\<lambda>z. z ! b) ys)) [0..<length y])"

definition transpose12 :: "real list list list \<Rightarrow> real list list list" where
  "transpose12 x = map (\<lambda>xb. map (\<lambda>t. map (\<lambda>chan. chan ! t) xb) [0..<size1 xb]) x"

text \<open>A tensor of shape \<open>(B, C, T)\<close> as a nested list.\<close>

definition shape3 :: "nat \<Rightarrow> nat \<Rightarrow> nat \<Rightarrow> 'a list list list \<Rightarrow> bool" where
  "shape3 B C T x \<longleftrightarrow>
     length x = B \<and> (\<forall>m \<in> set x. length m = C \<and> (\<forall>r \<in> set m. length r = T))"

subsection \<open>Notions used to relate the two modes\<close>

text \<open>
  The buffer of one batch element after \<open>t\<close> incremental steps over the sequence \<open>xb\<close>: the
  last \<open>R\<close> entries of \<open>R\<close> zero vectors followed by the first \<open>t\<close> time steps.
\<close>

definition buffer_after :: "nat \<Rightarrow> nat \<Rightarrow> real list list \<Rightarrow> nat \<Rightarrow> real list list" where
  "buffer_after R C xb t =
     drop t (replicate R (replicate C 0) @ map (\<lambda>s. map (\<lambda>chan. chan ! s) xb) [0..<t])"

text \<open>All output channels of the convolution at time \<open>t\<close> when the padding is
  \<open>(kernel_size - 1) * dilation\<close>, and the gating of one entry in either mode.\<close>

definition conv_at :: "conv1d \<Rightarrow> real list list \<Rightarrow> nat \<Rightarrow> real list" where
  "conv_at cv xb t =
     map (\<lambda>(w_o, b_o).
            b_o + conv_point w_o
                    (map (pad_zeros ((nat (kernel_size cv) - 1) * nat (dilation cv))) xb) t
                    (nat (dilation cv)))
       (zip (weight cv) (bias cv))"

definition gate :: "bool \<Rightarrow> real \<Rightarrow> real \<Rightarrow> real \<Rightarrow> real" where
  "gate is_glu a b r =
     (if is_glu then (a * sigmoid b + r) * sqrt 0.5 else sigmoid b * a + (1 - sigmoid b) * r)"

text \<open>A random draw (initialisation, dropout noise) does not change the shape.\<close>

definition keeps_shape :: "(real list list list \<Rightarrow> real list list list) \<Rightarrow> bool" where
  "keeps_shape f \<longleftrightarrow> (\<forall>B C T w. shape3 B C T w \<longrightarrow> shape3 B C T (f w))"

section \<open>Properties\<close>

subsection \<open>Positional encoding\<close>

lemma mapE_Inr:
  assumes "\<forall>x \<in> set xs. f x = Inr (g x)"
  shows "mapE f xs = Inr (map g xs)"
  using assms by (induction xs) (simp_all add: bindE_def)

lemma set_slice_from_even: "set (slice_from 0 2 n) = {c. c < n \<and> even c}"
proof -
  have "c \<in> (\<lambda>q. 2 * q) ` {0..<(n + 1) div 2} \<longleftrightarrow> c < n \<and> even c" for c
  proof
    assume "c \<in> (\<lambda>q. 2 * q) ` {0..<(n + 1) div 2}"
    then obtain q where "c = 2 * q" "q < (n + 1) div 2" by auto
    then show "c < n \<and> even c" by auto
  next
    assume a: "c < n \<and> even c"
    then obtain q where q: "c = 2 * q" by (auto elim: evenE)
    with a have "q < (n + 1) div 2" by auto
    with q show "c \<in> (\<lambda>q. 2 * q) ` {0..<(n + 1) div 2}" by auto
  qed
  then show ?thesis by (auto simp: slice_from_def)
qed

lemma set_slice_from_odd: "set (slice_from 1 2 n) = {c. c < n \<and> odd c}"
proof -
  have "c \<in> (\<lambda>q. 1 + 2 * q) ` {0..<n div 2} \<longleftrightarrow> c < n \<and> odd c" for c
  proof
    assume "c \<in> (\<lambda>q. 1 + 2 * q) ` {0..<n div 2}"
    then obtain q where "c = 1 + 2 * q" "q < n div 2" by auto
    then show "c < n \<and> odd c" by auto
  next
    assume a: "c < n \<and> odd c"
    then obtain q where q: "c = 2 * q + 1" by (auto elim: oddE)
    with a have "q < n div 2" by auto
    with q show "c \<in> (\<lambda>q. 1 + 2 * q) ` {0..<n div 2}" by auto
  qed
  then show ?thesis by (auto simp: slice_from_def)
qed

lemma in_slice_even: "c \<in> set (slice_from 0 2 n) \<longleftrightarrow> c < n \<and> even c"
  by (simp add: set_slice_from_even)

lemma in_slice_odd: "c \<in> set (slice_from (Suc 0) 2 n) \<longleftrightarrow> c < n \<and> odd c"
  using set_slice_from_odd[of n] by simp

lemma get_slice_Inr:
  assumes "\<forall>r \<in> set rows. r < length y \<and> (\<forall>c \<in> set cols. c < length (y ! r))"
  shows "get_slice y rows cols = Inr (map (\<lambda>r. map (\<lambda>c. y ! r ! c) cols) rows)"
  unfolding get_slice_def
proof (rule mapE_Inr, rule ballI)
  fix r assume r: "r \<in> set rows"
  show "mapE (get_item y r) cols = Inr (map (\<lambda>c. y ! r ! c) cols)"
    by (rule mapE_Inr) (use assms r in \<open>auto simp: get_item_def\<close>)
qed

text \<open>Writing values that depend on the column only, one column after the other.\<close>

lemma foldE_set_item:
  assumes "r < length y" and "\<forall>c \<in> set cols. c < length (y ! r)"
  shows "foldE (\<lambda>(c, v). set_item r c v) (zip cols (map h cols)) y
       = Inr (y[r := fold (\<lambda>c row. row[c := h c]) cols (y ! r)])"
  using assms
proof (induction cols arbitrary: y)
  case Nil
  then show ?case by simp
next
  case (Cons c cols)
  let ?y = "y[r := (y ! r)[c := h c]]"
  have s: "set_item r c (h c) y = Inr ?y" using Cons.prems by (simp add: set_item_def)
  have "foldE (\<lambda>(c, v). set_item r c v) (zip cols (map h cols)) ?y
       = Inr (?y[r := fold (\<lambda>c row. row[c := h c]) cols (?y ! r)])"
    by (rule Cons.IH) (use Cons.prems in auto)
  then show ?case using s Cons.prems(1) by (simp add: bindE_def)
qed

lemma fold_update_nth:
  assumes "j < length row"
  shows "fold (\<lambda>c row. row[c := h c]) cols row ! j = (if j \<in> set cols then h j else row ! j)"
  using assms
proof (induction cols arbitrary: row)
  case Nil
  then show ?case by simp
next
  case (Cons c cols)
  have "fold (\<lambda>c row. row[c := h c]) cols (row[c := h c]) ! j
        = (if j \<in> set cols then h j else row[c := h c] ! j)"
    by (rule Cons.IH) (use Cons.prems in simp)
  then show ?case using Cons.prems by (auto simp: nth_list_update)
qed

lemma length_fold_update: "length (fold (\<lambda>c row. row[c := h c]) cols row) = length row"
  by (induction cols arbitrary: row) simp_all


lemma foldE_set_rows:
  assumes "distinct rows"
    and "\<forall>r \<in> set rows. r < length y \<and> (\<forall>c \<in> set cols. c < length (y ! r))"
  shows "\<exists>y'. foldE (\<lambda>(r, vs). foldE (\<lambda>(c, v). set_item r c v) (zip cols vs))
                 (zip rows (map (\<lambda>r. map (H r) cols) rows)) y = Inr y'
           \<and> length y' = length y
           \<and> (\<forall>j < length y. y' ! j =
                 (if j \<in> set rows then fold (\<lambda>c row. row[c := H j c]) cols (y ! j) else y ! j))"
  using assms
proof (induction rows arbitrary: y)
  case Nil
  then show ?case by simp
next
  case (Cons r rows)
  let ?U = "\<lambda>j. fold (\<lambda>c row. row[c := H j c]) cols"
  let ?y = "y[r := ?U r (y ! r)]"
  have r: "r < length y" "\<forall>c \<in> set cols. c < length (y ! r)" "r \<notin> set rows" "distinct rows"
    using Cons.prems by auto
  have one: "foldE (\<lambda>(c, v). set_item r c v) (zip cols (map (H r) cols)) y = Inr ?y"
    by (rule foldE_set_item) (use r in auto)
  have "\<forall>r' \<in> set rows. r' < length ?y \<and> (\<forall>c \<in> set cols. c < length (?y ! r'))"
    using Cons.prems r(3) by (auto simp: nth_list_update)
  from Cons.IH[OF r(4) this] obtain y' where
    y': "foldE (\<lambda>(r, vs). foldE (\<lambda>(c, v). set_item r c v) (zip cols vs))
           (zip rows (map (\<lambda>r. map (H r) cols) rows)) ?y = Inr y'"
        "length y' = length ?y"
        "\<forall>j < length ?y. y' ! j = (if j \<in> set rows then ?U j (?y ! j) else ?y ! j)"
    by blast
  have a: "foldE (\<lambda>(r, vs). foldE (\<lambda>(c, v). set_item r c v) (zip cols vs))
           (zip (r # rows) (map (\<lambda>r. map (H r) cols) (r # rows))) y = Inr y'"
    using one y'(1) by (simp add: bindE_def)
  have b: "y' ! j = (if j \<in> set (r # rows) then ?U j (y ! j) else y ! j)" if "j < length y" for j
  proof (cases "j = r")
    case True
    then show ?thesis using y'(3) that r(3) by simp
  next
    case False
    then have "?y ! j = y ! j" by simp
    then show ?thesis using y'(3) that False by simp
  qed
  show ?case using a b y'(2) by auto
qed

lemma set_slice_Inr:
  assumes "distinct rows"
    and "\<forall>r \<in> set rows. r < length y \<and> (\<forall>c \<in> set cols. c < length (y ! r))"
  shows "\<exists>y'. set_slice rows cols (map (\<lambda>r. map (H r) cols) rows) y = Inr y'
           \<and> length y' = length y
           \<and> (\<forall>j < length y. length (y' ! j) = length (y ! j)
                 \<and> (\<forall>c < length (y ! j). y' ! j ! c =
                       (if j \<in> set rows \<and> c \<in> set cols then H j c else y ! j ! c)))"
proof -
  from foldE_set_rows[OF assms, of H] obtain y' where
    y': "foldE (\<lambda>(r, vs). foldE (\<lambda>(c, v). set_item r c v) (zip cols vs))
           (zip rows (map (\<lambda>r. map (H r) cols) rows)) y = Inr y'"
        "length y' = length y"
        "\<forall>j < length y. y' ! j =
            (if j \<in> set rows then fold (\<lambda>c row. row[c := H j c]) cols (y ! j) else y ! j)"
    by blast
  have a: "set_slice rows cols (map (\<lambda>r. map (H r) cols) rows) y = Inr y'"
    using y'(1) by (simp add: set_slice_def)
  have b: "length (y' ! j) = length (y ! j)
      \<and> (\<forall>c < length (y ! j). y' ! j ! c =
            (if j \<in> set rows \<and> c \<in> set cols then H j c else y ! j ! c))"
    if "j < length y" for j
    using y'(3) that by (simp add: length_fold_update fold_update_nth)
  show ?thesis using a b y'(2) by blast
qed



lemma size1_nth: "y \<noteq> [] \<Longrightarrow> size1 y = length (y ! 0)"
  by (cases y) (simp_all add: size1_def)

lemma sin_cos_rows_spec:
  assumes "\<forall>row \<in> set y. length row = D"
  shows "\<exists>y'. sin_cos_rows y = Inr y' \<and> length y' = length y
           \<and> (\<forall>r < length y. length (y' ! r) = D
                 \<and> (\<forall>c < D. y' ! r ! c =
                       (if 1 \<le> r then (if even c then sin (y ! r ! c) else cos (y ! r ! c))
                        else y ! r ! c)))"
proof -
  let ?rows = "[1..<size0 y]"
  let ?ev = "slice_from 0 2 (size1 y)"
  let ?od = "slice_from 1 2 (size1 y)"
  have len: "length (y ! r) = D" if "r < length y" for r using assms that by simp
  have sz: "size1 y = D" if "y \<noteq> []" using that len[of 0] by (simp add: size1_nth)
  have szr: "size1 y = D" if "r < length y" for r
  proof -
    have "y \<noteq> []" using that by (cases y) simp_all
    then show ?thesis by (rule sz)
  qed
  have dist: "distinct ?rows" by simp
  have ev_ok: "\<forall>r \<in> set ?rows. r < length y \<and> (\<forall>c \<in> set ?ev. c < length (y ! r))"
    using len szr by (auto simp: size0_def in_slice_even)
  have g1: "get_slice y ?rows ?ev = Inr (map (\<lambda>r. map (\<lambda>c. y ! r ! c) ?ev) ?rows)"
    by (rule get_slice_Inr[OF ev_ok])
  have m1: "map (map sin) (map (\<lambda>r. map (\<lambda>c. y ! r ! c) ?ev) ?rows)
          = map (\<lambda>r. map (\<lambda>c. sin (y ! r ! c)) ?ev) ?rows"
    by simp
  from set_slice_Inr[OF dist ev_ok, of "\<lambda>r c. sin (y ! r ! c)"] obtain y1 where
    y1: "set_slice ?rows ?ev (map (\<lambda>r. map (\<lambda>c. sin (y ! r ! c)) ?ev) ?rows) y = Inr y1"
        "length y1 = length y"
        "\<forall>j < length y. length (y1 ! j) = length (y ! j)
            \<and> (\<forall>c < length (y ! j). y1 ! j ! c =
                  (if j \<in> set ?rows \<and> c \<in> set ?ev then sin (y ! j ! c) else y ! j ! c))"
    by blast
  have s0: "size0 y1 = size0 y" using y1(2) by (simp add: size0_def)
  have s1: "size1 y1 = size1 y"
  proof (cases "y = []")
    case True
    then show ?thesis using y1(2) by simp
  next
    case False
    then have "y1 \<noteq> []" "0 < length y" using y1(2) by auto
    then show ?thesis using False y1(3) by (simp add: size1_nth)
  qed
  have od_ok: "\<forall>r \<in> set ?rows. r < length y1 \<and> (\<forall>c \<in> set ?od. c < length (y1 ! r))"
    using len szr y1(2,3) by (auto simp: size0_def in_slice_odd)
  have g2: "get_slice y1 ?rows ?od = Inr (map (\<lambda>r. map (\<lambda>c. y1 ! r ! c) ?od) ?rows)"
    by (rule get_slice_Inr[OF od_ok])
  have m2: "map (map cos) (map (\<lambda>r. map (\<lambda>c. y1 ! r ! c) ?od) ?rows)
          = map (\<lambda>r. map (\<lambda>c. cos (y1 ! r ! c)) ?od) ?rows"
    by simp
  from set_slice_Inr[OF dist od_ok, of "\<lambda>r c. cos (y1 ! r ! c)"] obtain y2 where
    y2: "set_slice ?rows ?od (map (\<lambda>r. map (\<lambda>c. cos (y1 ! r ! c)) ?od) ?rows) y1 = Inr y2"
        "length y2 = length y1"
        "\<forall>j < length y1. length (y2 ! j) = length (y1 ! j)
            \<and> (\<forall>c < length (y1 ! j). y2 ! j ! c =
                  (if j \<in> set ?rows \<and> c \<in> set ?od then cos (y1 ! j ! c) else y1 ! j ! c))"
    by blast
  have res: "sin_cos_rows y = Inr y2"
    unfolding sin_cos_rows_def s0 s1 g1 bindE_def sum.case m1 y1(1) g2 m2 y2(1) ..
  have ent: "length (y2 ! r) = D
      \<and> (\<forall>c < D. y2 ! r ! c =
            (if 1 \<le> r then (if even c then sin (y ! r ! c) else cos (y ! r ! c)) else y ! r ! c))"
    if r: "r < length y" for r
  proof -
    have ne: "y \<noteq> []" using r by auto
    have l1: "length (y1 ! r) = D" using y1(3) r len by simp
    have l2: "length (y2 ! r) = D" using y2(3) y1(2) r l1 by simp
    have "y2 ! r ! c =
        (if 1 \<le> r then (if even c then sin (y ! r ! c) else cos (y ! r ! c)) else y ! r ! c)"
      if c: "c < D" for c
    proof -
      have a: "y1 ! r ! c = (if 1 \<le> r \<and> even c then sin (y ! r ! c) else y ! r ! c)"
        using y1(3) r c len[OF r] sz[OF ne] by (auto simp: in_slice_even size0_def)
      have b: "y2 ! r ! c = (if 1 \<le> r \<and> odd c then cos (y1 ! r ! c) else y1 ! r ! c)"
        using y2(3) y1(2) r c l1 sz[OF ne] by (auto simp: in_slice_odd size0_def)
      show ?thesis using a b by auto
    qed
    then show ?thesis using l2 by blast
  qed
  show ?thesis using res ent y2(2) y1(2) by auto
qed


lemma raw_rows_rect:
  "\<forall>row \<in> set (map (\<lambda>pos. if pos \<noteq> 0 then map (f pos) [0..<D] else replicate D (0 :: real)) [0..<N]).
      length row = D"
  by auto

lemma position_encoding_init_shape:
  assumes "0 < N"
  shows "\<exists>tab. position_encoding_init N D rate s = Inr (Arr2 tab) \<and> length tab = N
           \<and> (\<forall>row \<in> set tab. length row = D)"
proof -
  let ?f = "\<lambda>pos i. rate * real pos / 10000 powr (2 * real i / real D)"
  let ?raw = "map (\<lambda>pos. if pos \<noteq> 0 then map (?f pos) [0..<D] else replicate D 0) [0..<N]"
  have "?raw \<noteq> []" using assms by simp
  then have arr: "np_array ?raw = Arr2 ?raw" by (simp only: np_array_def if_False)
  show ?thesis
  proof (cases s)
    case False
    have "position_encoding_init N D rate s = Inr (Arr2 ?raw)"
      using False arr by (simp add: position_encoding_init_def)
    then show ?thesis using raw_rows_rect[of ?f D N] by (intro exI[of _ ?raw]) auto
  next
    case True
    from sin_cos_rows_spec[OF raw_rows_rect, of ?f D N] obtain y' where
      y': "sin_cos_rows ?raw = Inr y'" "length y' = length ?raw"
          "\<forall>r < length ?raw. length (y' ! r) = D"
      by blast
    have "position_encoding_init N D rate s = Inr (Arr2 y')"
      using True arr y'(1) by (simp add: position_encoding_init_def sin_cos_def bindE_def)
    moreover have "\<forall>row \<in> set y'. length row = D"
      using y'(2,3) by (auto simp: in_set_conv_nth)
    ultimately show ?thesis using y'(2) by auto
  qed
qed

lemma position_encoding_init_empty:
  "position_encoding_init 0 D rate s = (if s then Inl (IndexError TooManyIndices) else Inr (Arr1 []))"
  by (simp add: position_encoding_init_def np_array_def sin_cos_def)

lemma sinusoidal_encode_rect:
  assumes "\<forall>row \<in> set m. length row = D"
  shows "\<exists>y. sinusoidal_encode (Arr2 m) w = Inr (Arr2 y)"
proof -
  have "\<forall>row \<in> set (map (map ((*) w)) m). length row = D" using assms by simp
  from sin_cos_rows_spec[OF this] obtain y' where "sin_cos_rows (map (map ((*) w)) m) = Inr y'"
    by blast
  then show ?thesis by (simp add: sinusoidal_encode_def scale_def sin_cos_def bindE_def)
qed

text \<open>
  Claim C3. For N at least 1 the builder returns an (N, D) table whose row 0 is the zero
  vector of length D and whose entry at row pos (pos at least 1) and column i is
  rate * pos / 10000^(2*i/D), replaced by its sine in even columns and its cosine in odd
  columns when the sinusoidal flag is set. For N = 0 there is no row: the array has one
  axis, and the sinusoidal overwrite raises.
\<close>

theorem position_encoding_init_spec:
  "(0 < N \<longrightarrow>
      (\<exists>tab. position_encoding_init N D rate s = Inr (Arr2 tab) \<and> length tab = N
         \<and> tab ! 0 = replicate D 0
         \<and> (\<forall>pos < N. 1 \<le> pos \<longrightarrow> length (tab ! pos) = D
               \<and> (\<forall>i < D. tab ! pos ! i =
                     (let v = rate * real pos / 10000 powr (2 * real i / real D)
                      in if s then (if even i then sin v else cos v) else v)))))
   \<and> (N = 0 \<longrightarrow> position_encoding_init N D rate s
                   = (if s then Inl (IndexError TooManyIndices) else Inr (Arr1 [])))"
proof (intro conjI impI)
  assume N: "0 < N"
  let ?f = "\<lambda>pos i. rate * real pos / 10000 powr (2 * real i / real D)"
  let ?raw = "map (\<lambda>pos. if pos \<noteq> 0 then map (?f pos) [0..<D] else replicate D 0) [0..<N]"
  have ne: "?raw \<noteq> []" using N by simp
  have arr: "np_array ?raw = Arr2 ?raw" using ne by (simp only: np_array_def if_False)
  have raw0: "?raw ! 0 = replicate D 0" using N by simp
  have rawp: "?raw ! pos ! i = ?f pos i" if "pos < N" "1 \<le> pos" "i < D" for pos i
    using that by simp
  have rawl: "length (?raw ! pos) = D" if "pos < N" for pos using that by simp
  show "\<exists>tab. position_encoding_init N D rate s = Inr (Arr2 tab) \<and> length tab = N
         \<and> tab ! 0 = replicate D 0
         \<and> (\<forall>pos < N. 1 \<le> pos \<longrightarrow> length (tab ! pos) = D
               \<and> (\<forall>i < D. tab ! pos ! i =
                     (let v = ?f pos i in if s then (if even i then sin v else cos v) else v)))"
  proof (cases s)
    case False
    have "position_encoding_init N D rate s = Inr (Arr2 ?raw)"
      using False arr by (simp add: position_encoding_init_def)
    then show ?thesis using False raw0 rawp rawl by (intro exI[of _ ?raw]) (simp add: Let_def)
  next
    case True
    from sin_cos_rows_spec[OF raw_rows_rect, of ?f D N] obtain y' where
      y': "sin_cos_rows ?raw = Inr y'" "length y' = length ?raw"
          "\<forall>r < length ?raw. length (y' ! r) = D
              \<and> (\<forall>c < D. y' ! r ! c =
                    (if 1 \<le> r then (if even c then sin (?raw ! r ! c) else cos (?raw ! r ! c))
                     else ?raw ! r ! c))"
      by blast
    have res: "position_encoding_init N D rate s = Inr (Arr2 y')"
      using True arr y'(1) by (simp add: position_encoding_init_def sin_cos_def bindE_def)
    have l: "length y' = N" using y'(2) by simp
    have z: "y' ! 0 = replicate D 0"
    proof (rule nth_equalityI)
      show "length (y' ! 0) = length (replicate D (0 :: real))" using y'(3) N by simp
    next
      fix i assume "i < length (y' ! 0)"
      then have i: "i < D" using y'(3) N by simp
      have "y' ! 0 ! i = ?raw ! 0 ! i" using y'(3) N i by simp
      then show "y' ! 0 ! i = replicate D 0 ! i" using raw0 by simp
    qed
    have e: "length (y' ! pos) = D
        \<and> (\<forall>i < D. y' ! pos ! i =
              (let v = ?f pos i in if s then (if even i then sin v else cos v) else v))"
      if "pos < N" "1 \<le> pos" for pos
    proof -
      have p: "pos < length ?raw" using that by simp
      have "y' ! pos ! i = (if even i then sin (?f pos i) else cos (?f pos i))" if i: "i < D" for i
      proof -
        have "y' ! pos ! i = (if even i then sin (?raw ! pos ! i) else cos (?raw ! pos ! i))"
          using y'(3) p i \<open>1 \<le> pos\<close> by simp
        then show ?thesis using rawp[OF \<open>pos < N\<close> \<open>1 \<le> pos\<close> i] by simp
      qed
      then show ?thesis using y'(3) p True by (simp add: Let_def)
    qed
    show ?thesis using res l z e by blast
  qed
next
  assume "N = 0"
  then show "position_encoding_init N D rate s
      = (if s then Inl (IndexError TooManyIndices) else Inr (Arr1 []))"
    by (simp add: position_encoding_init_def np_array_def sin_cos_def)
qed

theorem position_encoding_init_example:
  "position_encoding_init 2 2 1 True = Inr (Arr2 [[0, 0], [sin 1, cos (1 / 10000)]])
   \<and> position_encoding_init 0 2 1 False = Inr (Arr1 [])"
proof -
  from position_encoding_init_spec[of 2 2 1 True] obtain tab where
    t: "position_encoding_init 2 2 1 True = Inr (Arr2 tab)" "length tab = 2"
       "tab ! 0 = replicate 2 0"
       "\<forall>pos < 2. 1 \<le> pos \<longrightarrow> length (tab ! pos) = 2
           \<and> (\<forall>i < 2. tab ! pos ! i =
                 (let v = 1 * real pos / 10000 powr (2 * real i / real 2)
                  in if True then (if even i then sin v else cos v) else v))"
    by auto
  have r1: "tab ! 1 = [sin 1, cos (1 / 10000)]"
    by (rule nth_equalityI) (use t(4) in \<open>auto simp: less_Suc_eq numeral_2_eq_2\<close>)
  have "tab = [[0, 0], [sin 1, cos (1 / 10000)]]"
    by (rule nth_equalityI) (use t(2,3) r1 in \<open>auto simp: less_Suc_eq numeral_2_eq_2\<close>)
  then show ?thesis using t(1) position_encoding_init_spec[of 0 2 1 False] by simp
qed

text \<open>
  Claim C2. The table a Sinusoidal Encoding layer computes with scale w = 1 from its stored
  base table (the builder's table with rate 1 and the sinusoidal flag off) is exactly the
  table the builder returns with the sinusoidal flag on, and for at least one position
  that is a table of N rows.
\<close>

theorem sinusoidal_roundtrip:
  "SinusoidalEncoding_table N D 1 = position_encoding_init N D 1 True
   \<and> (0 < N \<longrightarrow> (\<exists>tab. position_encoding_init N D 1 True = Inr (Arr2 tab) \<and> length tab = N))"
proof
  have one: "(*) (1 :: real) = (\<lambda>v. v)" by (rule ext) simp
  have sc: "scale 1 x = x" for x by (cases x) (simp_all add: scale_def one)
  show "SinusoidalEncoding_table N D 1 = position_encoding_init N D 1 True"
    by (simp add: SinusoidalEncoding_table_def SinusoidalEncoding_weight_def
        position_encoding_init_def sinusoidal_encode_def sc bindE_def)
next
  show "0 < N \<longrightarrow> (\<exists>tab. position_encoding_init N D 1 True = Inr (Arr2 tab) \<and> length tab = N)"
    using position_encoding_init_shape[of N D 1 True] by blast
qed

theorem sinusoidal_roundtrip_example:
  "SinusoidalEncoding_table 2 2 1 = position_encoding_init 2 2 1 True
   \<and> (\<exists>tab. position_encoding_init 2 2 1 True = Inr (Arr2 tab) \<and> length tab = 2)"
  using sinusoidal_roundtrip [of 2 2] by simp

text \<open>More generally, re-encoding the base table with scale \<open>w\<close> gives the sinusoidal
  table of rate \<open>w\<close>.\<close>

lemma sinusoidal_encode_scales_rate:
  "SinusoidalEncoding_table N D w = position_encoding_init N D w True"
proof -
  have "map (map ((*) w)) (map (\<lambda>pos. if pos \<noteq> 0
            then map (\<lambda>i. 1 * real pos / 10000 powr (2 * real i / real D)) [0..<D]
            else replicate D 0) [0..<N])
      = map (\<lambda>pos. if pos \<noteq> 0
            then map (\<lambda>i. w * real pos / 10000 powr (2 * real i / real D)) [0..<D]
            else replicate D 0) [0..<N]"
    (is "map (map ((*) w)) ?one = ?w")
    by simp
  then have sc: "scale w (Arr2 ?one) = Arr2 ?w" by (simp only: scale_def ndarray.case)
  have ne: "?one = [] \<longleftrightarrow> ?w = []" by simp
  show ?thesis
  proof (cases "N = 0")
    case True
    then show ?thesis
      by (simp add: SinusoidalEncoding_table_def SinusoidalEncoding_weight_def
        position_encoding_init_def sinusoidal_encode_def scale_def np_array_def bindE_def
        sin_cos_def)
  next
    case False
    then have a: "np_array ?one = Arr2 ?one" "np_array ?w = Arr2 ?w"
      by (simp_all add: np_array_def)
    show ?thesis
      unfolding SinusoidalEncoding_table_def SinusoidalEncoding_weight_def
        position_encoding_init_def sinusoidal_encode_def Let_def a if_True if_False bindE_def
        sum.case sc ..
  qed
qed

text \<open>
  Claim C9. For every D, odd or even, neither the builder nor the re-encoding of the
  stored table reads or writes out of range: every column index of the raw formula and
  of the slices \<^verbatim>\<open>0::2\<close> and \<^verbatim>\<open>1::2\<close> is below D, both return a table whenever there is
  at least one position, and the re-encoding returns on every (N, D) matrix.
\<close>

theorem column_indices_in_range:
  "position_encoding_init N D rate s \<noteq> Inl (IndexError OutOfRange)
   \<and> SinusoidalEncoding_table N D w \<noteq> Inl (IndexError OutOfRange)
   \<and> list_all (\<lambda>c. c < D) ([0..<D] @ slice_from 0 2 D @ slice_from 1 2 D)
   \<and> (0 < N \<longrightarrow> (\<exists>t. position_encoding_init N D rate s = Inr (Arr2 t))
                \<and> (\<exists>t. SinusoidalEncoding_table N D w = Inr (Arr2 t)))
   \<and> ((\<forall>row \<in> set m. length row = D) \<longrightarrow> (\<exists>y. sinusoidal_encode (Arr2 m) w = Inr (Arr2 y)))"
proof -
  have pos: "\<exists>t. position_encoding_init N D r b = Inr (Arr2 t)" if "0 < N" for r b
    using position_encoding_init_shape[OF that, of D r b] by blast
  have a: "position_encoding_init N D r b \<noteq> Inl (IndexError OutOfRange)" for r b
  proof (cases "0 < N")
    case True
    then show ?thesis using pos[OF True, of r b] by auto
  next
    case False
    then show ?thesis using position_encoding_init_empty[of D r b] by simp
  qed
  have tab: "\<exists>t. SinusoidalEncoding_table N D w = Inr (Arr2 t)" if N: "0 < N"
  proof -
    from position_encoding_init_shape[OF N, of D 1 False] obtain tab where
      t: "position_encoding_init N D 1 False = Inr (Arr2 tab)"
         "\<forall>row \<in> set tab. length row = D"
      by blast
    from sinusoidal_encode_rect[OF t(2), of w] show ?thesis
      using t(1) by (simp add: SinusoidalEncoding_table_def SinusoidalEncoding_weight_def bindE_def)
  qed
  have b: "SinusoidalEncoding_table N D w \<noteq> Inl (IndexError OutOfRange)"
  proof (cases "0 < N")
    case True
    then show ?thesis using tab by auto
  next
    case False
    then show ?thesis
      by (simp add: SinusoidalEncoding_table_def SinusoidalEncoding_weight_def bindE_def
          position_encoding_init_empty sinusoidal_encode_def scale_def sin_cos_def)
  qed
  have c: "list_all (\<lambda>c. c < D) ([0..<D] @ slice_from 0 2 D @ slice_from 1 2 D)"
    by (auto simp: list_all_iff in_slice_even in_slice_odd)
  show ?thesis using a b c pos tab sinusoidal_encode_rect by blast
qed

theorem column_indices_in_range_example:
  "position_encoding_init 2 3 1 True \<noteq> Inl (IndexError OutOfRange)
   \<and> SinusoidalEncoding_table 2 3 1 \<noteq> Inl (IndexError OutOfRange)
   \<and> list_all (\<lambda>c. c < 3) ([0..<3] @ slice_from 0 2 3 @ slice_from 1 2 3)
   \<and> (\<exists>t. position_encoding_init 2 3 1 True = Inr (Arr2 t))
   \<and> (\<exists>t. SinusoidalEncoding_table 2 3 1 = Inr (Arr2 t))
   \<and> (\<exists>y. sinusoidal_encode (Arr2 [[0, 0, 0], [1, 2, 3]]) 1 = Inr (Arr2 y))"
  using column_indices_in_range [of 2 3 1 True 1 "[[0, 0, 0], [1, 2, 3]]"] by simp

subsection \<open>Layer factories\<close>

lemma init_params_not_assertion: "init_params normal in_ch std_mul p_drop m \<noteq> Inl AssertionError"
  by (simp add: init_params_def bindE_def py_truediv_def math_sqrt_def)

lemma new_conv_not_assertion: "new_conv in_ch out_ch ksize pad dil \<noteq> Inl AssertionError"
  by (simp add: new_conv_def)

text \<open>
  Claim C8. When the first entry of the dilation tuple is not 1, both the linearized and
  the time-batch-channel factory fail with the assertion error, whatever the other
  arguments are (so before any layer is built); when it is 1, neither raises it.
\<close>

theorem dilation_assertion:
  "(d \<noteq> 1 \<longrightarrow>
      LinearizedConv1d normal in_ch out_ch ksize (Some (d # ds)) std_mul p_drop pad = Inl AssertionError
    \<and> ConvTBC normal in_ch out_ch ksize (Some (d # ds)) std_mul p_drop pad = Inl AssertionError)
   \<and> (d = 1 \<longrightarrow>
      LinearizedConv1d normal in_ch out_ch ksize (Some (d # ds)) std_mul p_drop pad \<noteq> Inl AssertionError
    \<and> ConvTBC normal in_ch out_ch ksize (Some (d # ds)) std_mul p_drop pad \<noteq> Inl AssertionError)"
proof (intro conjI impI)
  assume "d \<noteq> 1"
  then show "LinearizedConv1d normal in_ch out_ch ksize (Some (d # ds)) std_mul p_drop pad
      = Inl AssertionError"
    by (simp add: LinearizedConv1d_def or_default_def tuple_first_def py_assert_def bindE_def)
next
  assume "d \<noteq> 1"
  then show "ConvTBC normal in_ch out_ch ksize (Some (d # ds)) std_mul p_drop pad
      = Inl AssertionError"
    by (simp add: ConvTBC_def or_default_def tuple_first_def py_assert_def bindE_def)
next
  assume "d = 1"
  then show "LinearizedConv1d normal in_ch out_ch ksize (Some (d # ds)) std_mul p_drop pad
      \<noteq> Inl AssertionError"
    using init_params_not_assertion new_conv_not_assertion
    by (auto simp: LinearizedConv1d_def or_default_def tuple_first_def py_assert_def bindE_def
        split: sum.splits)
next
  assume "d = 1"
  then show "ConvTBC normal in_ch out_ch ksize (Some (d # ds)) std_mul p_drop pad
      \<noteq> Inl AssertionError"
    using init_params_not_assertion new_conv_not_assertion
    by (auto simp: ConvTBC_def or_default_def tuple_first_def py_assert_def bindE_def
        split: sum.splits)
qed

theorem dilation_assertion_example:
  "LinearizedConv1d (\<lambda>std w. w) 4 8 3 (Some [2]) None None None = Inl AssertionError
   \<and> ConvTBC (\<lambda>std w. w) 4 8 3 (Some [2]) None None None = Inl AssertionError
   \<and> LinearizedConv1d (\<lambda>std w. w) 4 8 3 (Some [1]) None None None \<noteq> Inl AssertionError
   \<and> ConvTBC (\<lambda>std w. w) 4 8 3 (Some [1]) None None None \<noteq> Inl AssertionError"
  using dilation_assertion [of 2 "\<lambda>std w. w" 4 8 3 "[]" None None None]
    dilation_assertion [of 1 "\<lambda>std w. w" 4 8 3 "[]" None None None]
  by simp

lemma Conv1d_weight:
  assumes "0 < in_ch" and "0 \<le> out_ch" and "0 < ksize" and "or_default 0 p_drop \<le> 1"
    and "0 \<le> or_default 4 std_mul"
  shows "\<exists>c. Conv1d normal in_ch out_ch ksize p_drop std_mul pad dil = Inr c
     \<and> weight c = normal (sqrt (or_default 4 std_mul * (1 - or_default 0 p_drop) / real_of_int (ksize * in_ch)))
          (replicate (nat out_ch) (replicate (nat in_ch) (replicate (nat ksize) 0)))"
proof -
  have nz: "real_of_int (ksize * in_ch) \<noteq> 0" using assms(1,3) by simp
  have pos: "0 < real_of_int (ksize * in_ch)" using assms(1,3) by simp
  have "0 \<le> or_default 4 std_mul * (1 - or_default 0 p_drop)" using assms(4,5) by simp
  then have nn: "\<not> or_default 4 std_mul * (1 - or_default 0 p_drop) / real_of_int (ksize * in_ch) < 0"
    using pos by (simp add: divide_nonneg_pos not_less)
  show ?thesis
    using assms(1,2,3) nz nn
    by (simp add: Conv1d_def new_conv_def init_params_def bindE_def py_truediv_def math_sqrt_def)
qed

text \<open>
  Claim C10. A Highway block built without \<open>std_mul\<close> draws the weight of its inner
  convolution with multiplier 4 under GLU gating and multiplier 1 under sigmoid-highway
  gating, whereas the plain convolution factory called without \<open>std_mul\<close> uses 4.
\<close>

theorem HighwayConv1d_std_mul:
  assumes "0 < in_ch" and "0 \<le> out_ch" and "0 < or_default 1 ksize" and "0 < ksize1"
    and "or_default 0 p_drop \<le> 1"
  shows "(\<exists>h. HighwayConv1d normal in_ch out_ch ksize pad dil csl p_drop None g = Inr h
      \<and> weight (conv h) =
          normal (sqrt ((if or_default False g then 4 else 1) * (1 - or_default 0 p_drop)
                          / real_of_int (or_default 1 ksize * in_ch)))
            (replicate (nat (2 * out_ch)) (replicate (nat in_ch)
               (replicate (nat (or_default 1 ksize)) 0))))
    \<and> (\<exists>c. Conv1d normal in_ch out_ch ksize1 p_drop None pad1 dil1 = Inr c
      \<and> weight c =
          normal (sqrt (4 * (1 - or_default 0 p_drop) / real_of_int (ksize1 * in_ch)))
            (replicate (nat out_ch) (replicate (nat in_ch) (replicate (nat ksize1) 0))))"
proof
  let ?m = "if or_default False g then 4 else 1 :: real"
  let ?pad = "case pad of
                None \<Rightarrow> if or_default False csl then (or_default 1 ksize - 1) * or_default 1 dil
                        else (or_default 1 ksize - 1) div 2 * or_default 1 dil
              | Some p \<Rightarrow> p"
  have d: "or_default 0 (Some (or_default 0 p_drop)) \<le> (1 :: real)"
    "0 \<le> or_default 4 (Some ?m)" "0 \<le> 2 * out_ch"
    using assms(2,5) by (simp_all add: or_default_def)
  from Conv1d_weight[OF assms(1) d(3) assms(3) d(1) d(2), of normal "Some ?pad" "Some (or_default 1 dil)"]
  obtain c where c: "Conv1d normal in_ch (2 * out_ch) (or_default 1 ksize) (Some (or_default 0 p_drop))
        (Some ?m) (Some ?pad) (Some (or_default 1 dil)) = Inr c"
    "weight c = normal (sqrt (?m * (1 - or_default 0 p_drop) / real_of_int (or_default 1 ksize * in_ch)))
        (replicate (nat (2 * out_ch)) (replicate (nat in_ch) (replicate (nat (or_default 1 ksize)) 0)))"
    by (auto simp: or_default_def)
  show "\<exists>h. HighwayConv1d normal in_ch out_ch ksize pad dil csl p_drop None g = Inr h
      \<and> weight (conv h) =
          normal (sqrt (?m * (1 - or_default 0 p_drop) / real_of_int (or_default 1 ksize * in_ch)))
            (replicate (nat (2 * out_ch)) (replicate (nat in_ch)
               (replicate (nat (or_default 1 ksize)) 0)))"
    using c by (simp add: HighwayConv1d_def Let_def bindE_def)
next
  have "0 \<le> or_default 4 (None :: real option)" by (simp add: or_default_def)
  from Conv1d_weight[OF assms(1,2,4,5) this, of normal pad1 dil1]
  show "\<exists>c. Conv1d normal in_ch out_ch ksize1 p_drop None pad1 dil1 = Inr c
      \<and> weight c =
          normal (sqrt (4 * (1 - or_default 0 p_drop) / real_of_int (ksize1 * in_ch)))
            (replicate (nat out_ch) (replicate (nat in_ch) (replicate (nat ksize1) 0)))"
    by (simp add: or_default_def)
qed

theorem HighwayConv1d_std_mul_example:
  "(\<exists>h. HighwayConv1d (\<lambda>std. map (map (map (\<lambda>_. std)))) 1 1 None None None None None None
           (Some False) = Inr h \<and> weight (conv h) = [[[1]], [[1]]])
   \<and> (\<exists>h. HighwayConv1d (\<lambda>std. map (map (map (\<lambda>_. std)))) 1 1 None None None None None None
           (Some True) = Inr h \<and> weight (conv h) = [[[2]], [[2]]])
   \<and> (\<exists>c. Conv1d (\<lambda>std. map (map (map (\<lambda>_. std)))) 1 1 1 None None None None = Inr c
           \<and> weight c = [[[2]]])"
proof -
  have h: "(0 :: int) < 1" "(0 :: int) \<le> 1" "0 < or_default (1 :: int) None"
    "or_default (0 :: real) None \<le> 1"
    by (simp_all add: or_default_def)
  show ?thesis
    using HighwayConv1d_std_mul [OF h(1) h(2) h(3) h(1) h(4),
        of "\<lambda>std. map (map (map (\<lambda>_. std)))" None None None "Some False" None None]
      HighwayConv1d_std_mul [OF h(1) h(2) h(3) h(1) h(4),
        of "\<lambda>std. map (map (map (\<lambda>_. std)))" None None None "Some True" None None]
    by (simp add: or_default_def numeral_2_eq_2)
qed

subsection \<open>Highway convolution block\<close>

lemma bindE_Inr: "bindE (Inr v) f = f v"
  by (simp add: bindE_def)

lemma bindE_Inl: "bindE (Inl e) f = Inl e"
  by (simp add: bindE_def)

lemma shape3_length: "shape3 B C T x \<Longrightarrow> length x = B"
  by (simp add: shape3_def)

lemma shape3_nth: "shape3 B C T x \<Longrightarrow> b < B \<Longrightarrow> length (x ! b) = C"
  by (simp add: shape3_def)

lemma shape3_nth_nth: "shape3 B C T x \<Longrightarrow> b < B \<Longrightarrow> c < C \<Longrightarrow> length (x ! b ! c) = T"
  using nth_mem by (fastforce simp: shape3_def)

lemma shape3_I:
  assumes "length x = B" and "\<And>b. b < B \<Longrightarrow> length (x ! b) = C"
    and "\<And>b c. b < B \<Longrightarrow> c < C \<Longrightarrow> length (x ! b ! c) = T"
  shows "shape3 B C T x"
  unfolding shape3_def
proof (intro conjI ballI)
  show "length x = B" by (rule assms(1))
next
  fix m assume "m \<in> set x"
  then obtain b where b: "b < B" "m = x ! b" using assms(1) by (auto simp: in_set_conv_nth)
  then show "length m = C" using assms(2) by simp
  fix r assume "r \<in> set m"
  then obtain c where "c < C" "r = m ! c" using b assms(2) by (auto simp: in_set_conv_nth)
  then show "length r = T" using b assms(3) by simp
qed

lemma shape3_size1: "shape3 B C T x \<Longrightarrow> 0 < B \<Longrightarrow> size1 x = C"
  by (cases x) (auto simp: shape3_def size1_def)

lemma shape3_size2: "shape3 B C T x \<Longrightarrow> 0 < B \<Longrightarrow> 0 < C \<Longrightarrow> size2 x = T"
  by (cases x; cases "hd x") (auto simp: shape3_def size2_def size1_def)

lemma broadcast2_same:
  assumes "length xs = length ys"
    and "\<And>i. i < length xs \<Longrightarrow> f (xs ! i) (ys ! i) = Inr (g (xs ! i) (ys ! i))"
  shows "broadcast2 f xs ys = Inr (map2 g xs ys)"
proof -
  have "mapE (\<lambda>(x, y). f x y) (zip xs ys) = Inr (map (\<lambda>(x, y). g x y) (zip xs ys))"
    by (rule mapE_Inr) (use assms in \<open>auto simp: in_set_zip\<close>)
  then show ?thesis using assms(1) by (simp add: broadcast2_def)
qed

lemma ewise_same:
  assumes "shape3 B C T a" and "shape3 B C T b"
  shows "ewise f a b = Inr (map2 (map2 (map2 f)) a b)"
  unfolding ewise_def
proof (rule broadcast2_same)
  show "length a = length b" using assms by (simp add: shape3_def)
next
  fix i assume i: "i < length a"
  then have iB: "i < B" using assms(1) by (simp add: shape3_def)
  show "broadcast2 (broadcast2 (\<lambda>a b. Inr (f a b))) (a ! i) (b ! i)
      = Inr (map2 (map2 f) (a ! i) (b ! i))"
  proof (rule broadcast2_same)
    show "length (a ! i) = length (b ! i)" using assms iB by (simp add: shape3_def)
  next
    fix j assume "j < length (a ! i)"
    then have jC: "j < C" using assms(1) iB by (simp add: shape3_def)
    show "broadcast2 (\<lambda>a b. Inr (f a b)) (a ! i ! j) (b ! i ! j)
        = Inr (map2 f (a ! i ! j) (b ! i ! j))"
      by (rule broadcast2_same)
        (use assms iB jC in \<open>simp_all add: shape3_nth_nth\<close>)
  qed
qed

lemma map2_3_nth:
  assumes "shape3 B C T a" and "shape3 B C T b" and "i < B" and "j < C" and "k < T"
  shows "map2 (map2 (map2 f)) a b ! i ! j ! k = f (a ! i ! j ! k) (b ! i ! j ! k)"
  using assms by (simp add: shape3_length shape3_nth shape3_nth_nth)

lemma map2_3_shape:
  assumes "shape3 B C T a" and "shape3 B C T b"
  shows "shape3 B C T (map2 (map2 (map2 f)) a b)"
  by (rule shape3_I) (use assms in \<open>simp_all add: shape3_length shape3_nth shape3_nth_nth\<close>)

lemma tmap_shape: "shape3 B C T a \<Longrightarrow> shape3 B C T (tmap f a)"
  by (auto simp: shape3_def tmap_def)

lemma tmap_nth:
  "shape3 B C T a \<Longrightarrow> i < B \<Longrightarrow> j < C \<Longrightarrow> k < T \<Longrightarrow> tmap f a ! i ! j ! k = f (a ! i ! j ! k)"
  by (simp add: tmap_def shape3_length shape3_nth shape3_nth_nth)

text \<open>Halving the channel axis.\<close>

lemma take_half_shape: "shape3 B (2 * C) T y \<Longrightarrow> shape3 B C T (map (take C) y)"
  by (auto simp: shape3_def dest: in_set_takeD)

lemma drop_half_shape: "shape3 B (2 * C) T y \<Longrightarrow> shape3 B C T (map (drop C) y)"
  by (auto simp: shape3_def dest: in_set_dropD)

lemma split_dim1_halves:
  assumes "shape3 B (2 * C) T y" and "0 < B" and "0 < C"
  shows "bindE (split_dim1 (size1 y div 2) y) unpack2 = Inr (map (take C) y, map (drop C) y)"
proof -
  have s: "size1 y = 2 * C" by (rule shape3_size1[OF assms(1,2)])
  have h: "size1 y div 2 = C" using s by simp
  have "2 * C + C - 1 = (C - 1) + 2 * C" using assms(3) by simp
  then have "(2 * C + C - 1) div C = 2" using assms(3) by (simp only: div_mult_self1) simp
  then have idx: "[0..<(size1 y + C - 1) div C] = [0, Suc 0]"
    using s by (simp add: upt_rec)
  have d: "map (\<lambda>xb. take C (drop C xb)) y = map (drop C) y"
    using assms(1) by (auto simp: shape3_def)
  have "split_dim1 C y = Inr [map (take C) y, map (drop C) y]"
    using assms(3) idx d by (simp add: split_dim1_def)
  then show ?thesis by (simp add: h unpack2_def bindE_def)
qed


lemma take_half_nth:
  "shape3 B (2 * C) T y \<Longrightarrow> b < B \<Longrightarrow> c < C \<Longrightarrow> map (take C) y ! b ! c = y ! b ! c"
  by (simp add: shape3_length)

lemma drop_half_nth:
  "shape3 B (2 * C) T y \<Longrightarrow> b < B \<Longrightarrow> c < C \<Longrightarrow> map (drop C) y ! b ! c = y ! b ! (C + c)"
  by (simp add: shape3_length shape3_nth)

lemma F_glu_dim1_halves:
  assumes "shape3 B (2 * C) T y" and "0 < B"
  shows "F_glu_dim1 y = Inr (map2 (map2 (map2 (\<lambda>a b. a * sigmoid b))) (map (take C) y) (map (drop C) y))"
proof -
  have s: "size1 y = 2 * C" by (rule shape3_size1[OF assms])
  have "map (\<lambda>xb. map2 (map2 (\<lambda>a b. a * sigmoid b)) (take C xb) (drop C xb)) y
      = map2 (map2 (map2 (\<lambda>a b. a * sigmoid b))) (map (take C) y) (map (drop C) y)"
    by (simp add: zip_map_map map_zip_map map_zip_map2 zip_same_conv_map)
  then show ?thesis by (simp add: F_glu_dim1_def s)
qed

lemma forward_highway_value:
  assumes "\<not> glu m" and "shape3 B C T x" and "0 < B" and "0 < C"
    and "F_dropout noise x (dropout m) (training m) = Inr x1"
    and "conv_forward (conv m) x1 = Inr x2"
    and "y = (if causal m then map (map (take (size2 x))) x2 else x2)"
    and "shape3 B (2 * C) T y"
  shows "forward noise m x =
     Inr (map2 (map2 (map2 (+)))
            (map2 (map2 (map2 (*))) (tmap sigmoid (map (drop C) y)) (map (take C) y))
            (map2 (map2 (map2 (*))) (tmap (\<lambda>v. 1 - v) (tmap sigmoid (map (drop C) y))) x))"
proof -
  let ?a = "map (take C) y" and ?b = "map (drop C) y"
  let ?T = "tmap sigmoid ?b"
  let ?ta = "map2 (map2 (map2 (*))) ?T ?a"
  let ?tr = "map2 (map2 (map2 (*))) (tmap (\<lambda>v. 1 - v) ?T) x"
  let ?out = "map2 (map2 (map2 (+))) ?ta ?tr"
  have sa: "shape3 B C T ?a" and sb: "shape3 B C T ?b"
    using assms(8) by (rule take_half_shape, rule drop_half_shape)
  have sT: "shape3 B C T ?T" by (rule tmap_shape[OF sb])
  have sT1: "shape3 B C T (tmap (\<lambda>v. 1 - v) ?T)" by (rule tmap_shape[OF sT])
  have sta: "shape3 B C T ?ta" by (rule map2_3_shape[OF sT sa])
  have str: "shape3 B C T ?tr" by (rule map2_3_shape[OF sT1 assms(2)])
  have sp: "bindE (split_dim1 (size1 y div 2) y) unpack2 = Inr (?a, ?b)"
    by (rule split_dim1_halves[OF assms(8,3,4)])
  have e1: "ewise (*) ?T ?a = Inr ?ta" by (rule ewise_same[OF sT sa])
  have e2: "ewise (*) (tmap (\<lambda>v. 1 - v) ?T) x = Inr ?tr" by (rule ewise_same[OF sT1 assms(2)])
  have e3: "ewise (+) ?ta ?tr = Inr ?out" by (rule ewise_same[OF sta str])
  have cf: "bindE (conv_forward (conv m) x1) (\<lambda>x2.
        Inr (if causal m then map (map (take (size2 x))) x2 else x2, conv m)) = Inr (y, conv m)"
    by (simp add: assms(6,7) bindE_Inr)
  have "forward' noise m x False = Inr (?out, m\<lparr>conv := conv m\<rparr>)"
    by (simp add: forward'_def Let_def assms(1,5) cf sp e1 e2 e3 bindE_Inr)
  then show ?thesis by (simp add: forward_def bindE_Inr)
qed

lemma forward_glu_value:
  assumes "glu m" and "shape3 B C T x" and "0 < B"
    and "F_dropout noise x (dropout m) (training m) = Inr x1"
    and "conv_forward (conv m) x1 = Inr x2"
    and "y = (if causal m then map (map (take (size2 x))) x2 else x2)"
    and "shape3 B (2 * C) T y"
  shows "forward noise m x =
     Inr (tmap (\<lambda>v. v * sqrt 0.5)
            (map2 (map2 (map2 (+)))
               (map2 (map2 (map2 (\<lambda>a b. a * sigmoid b))) (map (take C) y) (map (drop C) y)) x))"
proof -
  let ?a = "map (take C) y" and ?b = "map (drop C) y"
  let ?g = "map2 (map2 (map2 (\<lambda>a b. a * sigmoid b))) ?a ?b"
  let ?s = "map2 (map2 (map2 (+))) ?g x"
  have sa: "shape3 B C T ?a" and sb: "shape3 B C T ?b"
    using assms(7) by (rule take_half_shape, rule drop_half_shape)
  have sg: "shape3 B C T ?g" by (rule map2_3_shape[OF sa sb])
  have g: "F_glu_dim1 y = Inr ?g" by (rule F_glu_dim1_halves[OF assms(7,3)])
  have e: "ewise (+) ?g x = Inr ?s" by (rule ewise_same[OF sg assms(2)])
  have cf: "bindE (conv_forward (conv m) x1) (\<lambda>x2.
        Inr (if causal m then map (map (take (size2 x))) x2 else x2, conv m)) = Inr (y, conv m)"
    by (simp add: assms(5,6) bindE_Inr)
  have "forward' noise m x False
      = Inr (tmap (\<lambda>v. v * sqrt 0.5) ?s, m\<lparr>conv := conv m\<rparr>)"
    by (simp add: forward'_def Let_def assms(1,4) cf g e bindE_Inr)
  then show ?thesis by (simp add: forward_def bindE_Inr)
qed

text \<open>
  Claim C4. In highway (non-GLU) mode, on a batch input x of shape (B, C, T) whose
  (trimmed) convolution output y has shape (B, 2C, T), the block returns
  sigmoid(b) * a + (1 - sigmoid(b)) * x entrywise, where a is the first and b the second
  half of y along the channel axis; nothing is scaled by sqrt(0.5).
\<close>

theorem highway_gate:
  assumes "\<not> glu m" and "shape3 B C T x" and "0 < B" and "0 < C"
    and "F_dropout noise x (dropout m) (training m) = Inr x1"
    and "conv_forward (conv m) x1 = Inr x2"
    and "y = (if causal m then map (map (take (size2 x))) x2 else x2)"
    and "shape3 B (2 * C) T y"
  shows "\<exists>out. forward noise m x = Inr out \<and> shape3 B C T out
     \<and> (\<forall>b < B. \<forall>c < C. \<forall>t < T.
           out ! b ! c ! t = sigmoid (y ! b ! (C + c) ! t) * y ! b ! c ! t
                             + (1 - sigmoid (y ! b ! (C + c) ! t)) * x ! b ! c ! t)"
proof -
  let ?a = "map (take C) y" and ?b = "map (drop C) y"
  let ?T = "tmap sigmoid ?b"
  let ?ta = "map2 (map2 (map2 (*))) ?T ?a"
  let ?tr = "map2 (map2 (map2 (*))) (tmap (\<lambda>v. 1 - v) ?T) x"
  let ?out = "map2 (map2 (map2 (+))) ?ta ?tr"
  have sa: "shape3 B C T ?a" and sb: "shape3 B C T ?b"
    using assms(8) by (rule take_half_shape, rule drop_half_shape)
  have sT: "shape3 B C T ?T" by (rule tmap_shape[OF sb])
  have sT1: "shape3 B C T (tmap (\<lambda>v. 1 - v) ?T)" by (rule tmap_shape[OF sT])
  have sta: "shape3 B C T ?ta" by (rule map2_3_shape[OF sT sa])
  have str: "shape3 B C T ?tr" by (rule map2_3_shape[OF sT1 assms(2)])
  have res: "forward noise m x = Inr ?out" by (rule forward_highway_value[OF assms])
  have so: "shape3 B C T ?out" by (rule map2_3_shape[OF sta str])
  have pt: "?out ! b ! c ! t = sigmoid (y ! b ! (C + c) ! t) * y ! b ! c ! t
                             + (1 - sigmoid (y ! b ! (C + c) ! t)) * x ! b ! c ! t"
    if "b < B" "c < C" "t < T" for b c t
  proof -
    have "?out ! b ! c ! t = ?ta ! b ! c ! t + ?tr ! b ! c ! t"
      by (rule map2_3_nth[OF sta str that])
    also have "?ta ! b ! c ! t = ?T ! b ! c ! t * ?a ! b ! c ! t"
      by (rule map2_3_nth[OF sT sa that])
    also have "?tr ! b ! c ! t = tmap (\<lambda>v. 1 - v) ?T ! b ! c ! t * x ! b ! c ! t"
      by (rule map2_3_nth[OF sT1 assms(2) that])
    also have "tmap (\<lambda>v. 1 - v) ?T ! b ! c ! t = 1 - ?T ! b ! c ! t"
      by (rule tmap_nth[OF sT that])
    also have "?T ! b ! c ! t = sigmoid (?b ! b ! c ! t)" by (rule tmap_nth[OF sb that])
    also have "?b ! b ! c = y ! b ! (C + c)" by (rule drop_half_nth[OF assms(8) that(1,2)])
    also have "?a ! b ! c = y ! b ! c" by (rule take_half_nth[OF assms(8) that(1,2)])
    finally show ?thesis .
  qed
  show ?thesis using res so pt by blast
qed

text \<open>
  Claim C5. In gated-linear-unit mode, on a batch input x of shape (B, C, T) whose
  (trimmed) convolution output y has shape (B, 2C, T), the block returns
  (a * sigmoid(b) + x) * sqrt(0.5) entrywise, a and b being the two halves of y along the
  channel axis.
\<close>

theorem glu_gate:
  assumes "glu m" and "shape3 B C T x" and "0 < B"
    and "F_dropout noise x (dropout m) (training m) = Inr x1"
    and "conv_forward (conv m) x1 = Inr x2"
    and "y = (if causal m then map (map (take (size2 x))) x2 else x2)"
    and "shape3 B (2 * C) T y"
  shows "\<exists>out. forward noise m x = Inr out \<and> shape3 B C T out
     \<and> (\<forall>b < B. \<forall>c < C. \<forall>t < T.
           out ! b ! c ! t
             = (y ! b ! c ! t * sigmoid (y ! b ! (C + c) ! t) + x ! b ! c ! t) * sqrt 0.5)"
proof -
  let ?a = "map (take C) y" and ?b = "map (drop C) y"
  let ?g = "map2 (map2 (map2 (\<lambda>a b. a * sigmoid b))) ?a ?b"
  let ?s = "map2 (map2 (map2 (+))) ?g x"
  let ?out = "tmap (\<lambda>v. v * sqrt 0.5) ?s"
  have sa: "shape3 B C T ?a" and sb: "shape3 B C T ?b"
    using assms(7) by (rule take_half_shape, rule drop_half_shape)
  have sg: "shape3 B C T ?g" by (rule map2_3_shape[OF sa sb])
  have ss: "shape3 B C T ?s" by (rule map2_3_shape[OF sg assms(2)])
  have res: "forward noise m x = Inr ?out" by (rule forward_glu_value[OF assms])
  have so: "shape3 B C T ?out" by (rule tmap_shape[OF ss])
  have pt: "?out ! b ! c ! t
             = (y ! b ! c ! t * sigmoid (y ! b ! (C + c) ! t) + x ! b ! c ! t) * sqrt 0.5"
    if "b < B" "c < C" "t < T" for b c t
  proof -
    have "?out ! b ! c ! t = ?s ! b ! c ! t * sqrt 0.5" by (rule tmap_nth[OF ss that])
    also have "?s ! b ! c ! t = ?g ! b ! c ! t + x ! b ! c ! t"
      by (rule map2_3_nth[OF sg assms(2) that])
    also have "?g ! b ! c ! t = ?a ! b ! c ! t * sigmoid (?b ! b ! c ! t)"
      by (rule map2_3_nth[OF sa sb that])
    also have "?b ! b ! c = y ! b ! (C + c)" by (rule drop_half_nth[OF assms(7) that(1,2)])
    also have "?a ! b ! c = y ! b ! c" by (rule take_half_nth[OF assms(7) that(1,2)])
    finally show ?thesis .
  qed
  show ?thesis using res so pt by blast
qed

lemma conv_forward_shape:
  assumes "wf_conv cv" and "shape3 B C T x" and "0 < C" and "int C = in_channels cv"
    and "1 \<le> kernel_size cv" and "1 \<le> dilation cv" and "0 \<le> padding cv"
    and "len = int T + 2 * padding cv - dilation cv * (kernel_size cv - 1)" and "1 \<le> len"
  shows "\<exists>y. conv_forward cv x = Inr y \<and> shape3 B (nat (out_channels cv)) (nat len) y"
proof -
  let ?g = "\<lambda>xb. map (\<lambda>(w_o, b_o).
                     map (\<lambda>t. b_o + conv_point w_o (map (pad_zeros (nat (padding cv))) xb) t
                                      (nat (dilation cv)))
                       [0..<nat len])
                   (zip (weight cv) (bias cv))"
  have el: "conv_element cv xb = Inr (?g xb)" if "xb \<in> set x" for xb
  proof -
    have l: "length xb = C" and r: "\<forall>r \<in> set xb. length r = T"
      using assms(2) that by (auto simp: shape3_def)
    have "xb \<noteq> []" using l assms(3) by auto
    then have s: "size1 xb = T" using r by (cases xb) (auto simp: size1_def)
    have "rect xb" using r s by (simp add: rect_def)
    then show ?thesis
      using l s assms(4-9) by (simp add: conv_element_def Let_def)
  qed
  have res: "conv_forward cv x = Inr (map ?g x)"
    unfolding conv_forward_def by (rule mapE_Inr) (use el in blast)
  have "shape3 B (nat (out_channels cv)) (nat len) (map ?g x)"
    using assms(1,2) by (auto simp: shape3_def wf_conv_def dest!: set_zip_leftD)
  then show ?thesis using res by blast
qed


lemma Conv1d_fields:
  assumes "Conv1d normal in_ch out_ch ksize p_drop std_mul pad dil = Inr c"
  shows "in_channels c = in_ch \<and> out_channels c = out_ch \<and> kernel_size c = ksize
    \<and> padding c = or_default 0 pad \<and> dilation c = or_default 1 dil
    \<and> 0 \<le> in_ch \<and> 0 \<le> out_ch \<and> 1 \<le> ksize
    \<and> (\<exists>std. weight c = normal std (replicate (nat out_ch)
           (replicate (nat in_ch) (replicate (nat ksize) 0))))
    \<and> bias c = replicate (nat out_ch) 0
    \<and> input_buffer c = None"
proof -
  let ?m = "\<lparr>in_channels = in_ch, out_channels = out_ch, kernel_size = ksize,
             padding = or_default 0 pad, dilation = or_default 1 dil,
             weight = replicate (nat out_ch) (replicate (nat in_ch) (replicate (nat ksize) 0)),
             bias = replicate (nat out_ch) 0, input_buffer = None\<rparr>"
  have nn: "\<not> (in_ch < 0 \<or> out_ch < 0 \<or> ksize < 0)"
    using assms by (auto simp: Conv1d_def new_conv_def bindE_def)
  then have new: "new_conv in_ch out_ch ksize (or_default 0 pad) (or_default 1 dil) = Inr ?m"
    by (simp add: new_conv_def)
  have ip: "init_params normal in_ch (or_default 4 std_mul) (or_default 0 p_drop) ?m = Inr c"
    using assms by (simp add: Conv1d_def new bindE_def)
  have nz: "real_of_int (ksize * in_ch) \<noteq> 0"
    using ip by (auto simp: init_params_def py_truediv_def bindE_def split: if_splits)
  then have k: "1 \<le> ksize" using nn by (cases "ksize = 0") auto
  obtain std where c: "c = ?m\<lparr>weight := normal std (weight ?m), bias := map (\<lambda>_. 0) (bias ?m)\<rparr>"
    using ip nz
    by (auto simp: init_params_def py_truediv_def math_sqrt_def bindE_def split: if_splits)
  show ?thesis
    unfolding c using nn k by (auto simp: map_replicate_const)
qed

lemma HighwayConv1d_fields:
  assumes "HighwayConv1d normal in_ch out_ch ksize pad dil csl p_drop std_mul g = Inr m"
  shows "causal m = or_default False csl \<and> dropout m = or_default 0 p_drop
    \<and> glu m = or_default False g
    \<and> in_channels (conv m) = in_ch \<and> out_channels (conv m) = 2 * out_ch
    \<and> kernel_size (conv m) = or_default 1 ksize \<and> dilation (conv m) = or_default 1 dil
    \<and> padding (conv m) = (case pad of
          None \<Rightarrow> if or_default False csl then (or_default 1 ksize - 1) * or_default 1 dil
                  else (or_default 1 ksize - 1) div 2 * or_default 1 dil
        | Some p \<Rightarrow> p)
    \<and> 0 \<le> in_ch \<and> 0 \<le> out_ch \<and> 1 \<le> or_default 1 ksize
    \<and> (\<exists>std. weight (conv m) = normal std (replicate (nat (2 * out_ch))
           (replicate (nat in_ch) (replicate (nat (or_default 1 ksize)) 0))))
    \<and> bias (conv m) = replicate (nat (2 * out_ch)) 0
    \<and> input_buffer (conv m) = None"
proof -
  let ?pad = "case pad of
          None \<Rightarrow> if or_default False csl then (or_default 1 ksize - 1) * or_default 1 dil
                  else (or_default 1 ksize - 1) div 2 * or_default 1 dil
        | Some p \<Rightarrow> p"
  let ?sm = "case std_mul of None \<Rightarrow> if or_default False g then 4 else 1 | Some s \<Rightarrow> s"
  obtain c where c: "Conv1d normal in_ch (2 * out_ch) (or_default 1 ksize)
        (Some (or_default 0 p_drop)) (Some ?sm) (Some ?pad) (Some (or_default 1 dil)) = Inr c"
      and m: "m = \<lparr>causal = or_default False csl, dropout = or_default 0 p_drop,
                   glu = or_default False g, training = True, conv = c\<rparr>"
    using assms unfolding HighwayConv1d_def Let_def bindE_def
    by (auto split: sum.splits)
  show ?thesis
    unfolding m using Conv1d_fields[OF c] by (simp add: or_default_def)
qed

lemma replicate_shape3: "shape3 B C T (replicate B (replicate C (replicate T v)))"
  by (simp add: shape3_def)

lemma wf_conv_shape3:
  assumes "shape3 (nat (out_channels cv)) (nat (in_channels cv)) (nat (kernel_size cv)) (weight cv)"
    and "length (bias cv) = nat (out_channels cv)"
  shows "wf_conv cv"
  using assms by (simp add: wf_conv_def shape3_def)

lemma trim_shape:
  assumes "shape3 B C L y" and "T \<le> L"
  shows "shape3 B C T (map (map (take T)) y)"
  using assms by (auto simp: shape3_def)

text \<open>
  Claim C6. A causal Highway block built with the default padding, for any kernel size
  and any dilation of at least 1, maps a batch input of shape (B, C, T) to an output of
  shape (B, C, T): the time length is kept.
\<close>

theorem causal_keeps_length:
  assumes "HighwayConv1d normal (int C) (int C) (Some k) None (Some d) (Some True) p_drop std_mul g
             = Inr m"
    and "\<forall>std. keeps_shape (normal std)" and "keeps_shape noise"
    and "shape3 B C T x" and "0 < B" and "0 < C" and "1 \<le> d" and "0 < T \<or> 1 < k"
    and "0 \<le> or_default 0 p_drop" and "or_default 0 p_drop \<le> 1"
  shows "\<exists>out. forward noise (m\<lparr>training := tr\<rparr>) x = Inr out \<and> shape3 B C T out"
proof -
  let ?m = "m\<lparr>training := tr\<rparr>"
  from HighwayConv1d_fields[OF assms(1)] obtain std where
    f: "causal m" "dropout m = or_default 0 p_drop" "in_channels (conv m) = int C"
       "out_channels (conv m) = 2 * int C" "kernel_size (conv m) = k" "dilation (conv m) = d"
       "padding (conv m) = (k - 1) * d" "1 \<le> k"
       "weight (conv m) = normal std (replicate (nat (2 * int C))
           (replicate (nat (int C)) (replicate (nat k) 0)))"
       "bias (conv m) = replicate (nat (2 * int C)) 0"
    by (auto simp: or_default_def)
  have "shape3 (nat (2 * int C)) (nat (int C)) (nat k)
      (replicate (nat (2 * int C)) (replicate (nat (int C)) (replicate (nat k) (0 :: real))))"
    by (rule replicate_shape3)
  then have "shape3 (nat (2 * int C)) (nat (int C)) (nat k) (weight (conv m))"
    unfolding f(9) using assms(2) unfolding keeps_shape_def by blast
  then have wf: "wf_conv (conv m)"
    by (intro wf_conv_shape3) (simp_all add: f)
  define x1 where "x1 = (if training ?m \<and> 0 < dropout ?m then noise x else x)"
  have dr: "F_dropout noise x (dropout ?m) (training ?m) = Inr x1"
    using assms(9,10) f(2) by (simp add: F_dropout_def x1_def)
  have sx1: "shape3 B C T x1"
    using assms(3,4) by (simp add: x1_def keeps_shape_def)
  define len where "len = int T + 2 * padding (conv m) - dilation (conv m) * (kernel_size (conv m) - 1)"
  have len: "len = int T + (k - 1) * d" by (simp add: len_def f)
  have "0 \<le> (k - 1) * d" using f(8) assms(7) by simp
  moreover have "0 < (k - 1) * d" if "1 < k" using that assms(7) by simp
  ultimately have len1: "1 \<le> len" and lenT: "T \<le> nat len"
    using assms(8) len by auto
  have p0: "0 \<le> padding (conv m)" using f(7,8) assms(7) by simp
  from conv_forward_shape[OF wf sx1 assms(6) f(3)[symmetric] _ _ p0 len_def len1]
  obtain x2 where x2: "conv_forward (conv m) x1 = Inr x2"
      "shape3 B (nat (out_channels (conv m))) (nat len) x2"
    using f(5,6,8) assms(7) by auto
  have x2': "conv_forward (conv ?m) x1 = Inr x2" using x2(1) by simp
  have sz: "size2 x = T" by (rule shape3_size2[OF assms(4,5,6)])
  define y where "y = (if causal ?m then map (map (take (size2 x))) x2 else x2)"
  have "shape3 B (2 * C) (nat len) x2" using x2(2) f(4) by (simp add: nat_mult_distrib)
  then have sy: "shape3 B (2 * C) T y"
    using f(1) sz lenT by (simp add: y_def trim_shape)
  show ?thesis
  proof (cases "glu ?m")
    case True
    have "forward noise ?m x =
       Inr (tmap (\<lambda>v. v * sqrt 0.5)
            (map2 (map2 (map2 (+)))
               (map2 (map2 (map2 (\<lambda>a b. a * sigmoid b))) (map (take C) y) (map (drop C) y)) x))"
      by (rule forward_glu_value[OF True assms(4,5) dr x2' y_def sy])
    moreover have "shape3 B C T (tmap (\<lambda>v. v * sqrt 0.5)
            (map2 (map2 (map2 (+)))
               (map2 (map2 (map2 (\<lambda>a b. a * sigmoid b))) (map (take C) y) (map (drop C) y)) x))"
      by (intro tmap_shape map2_3_shape take_half_shape drop_half_shape sy assms(4))
    ultimately show ?thesis by blast
  next
    case False
    have "forward noise ?m x =
      Inr (map2 (map2 (map2 (+)))
            (map2 (map2 (map2 (*))) (tmap sigmoid (map (drop C) y)) (map (take C) y))
            (map2 (map2 (map2 (*))) (tmap (\<lambda>v. 1 - v) (tmap sigmoid (map (drop C) y))) x))"
      by (rule forward_highway_value[OF False assms(4,5,6) dr x2' y_def sy])
    moreover have "shape3 B C T (map2 (map2 (map2 (+)))
            (map2 (map2 (map2 (*))) (tmap sigmoid (map (drop C) y)) (map (take C) y))
            (map2 (map2 (map2 (*))) (tmap (\<lambda>v. 1 - v) (tmap sigmoid (map (drop C) y))) x))"
      by (intro tmap_shape map2_3_shape take_half_shape drop_half_shape sy assms(4))
    ultimately show ?thesis by blast
  qed
qed


lemma shape3_unit: "shape3 1 1 1 out \<Longrightarrow> out = [[[out ! 0 ! 0 ! 0]]]"
proof -
  assume a: "shape3 1 1 1 out"
  have l1: "xs = [xs ! 0]" if "length xs = 1" for xs :: "'b list"
    using that by (cases xs) auto
  have "length out = 1" "length (out ! 0) = 1" "length (out ! 0 ! 0) = 1"
    using a shape3_length[OF a] shape3_nth[OF a, of 0] shape3_nth_nth[OF a, of 0 0] by auto
  then show ?thesis using l1[of out] l1[of "out ! 0"] l1[of "out ! 0 ! 0"] by metis
qed

lemma sigmoid_0: "sigmoid 0 = 1 / 2"
  by (simp add: sigmoid_def)

theorem highway_gate_example:
  "forward (\<lambda>x. x)
     \<lparr>causal = False, dropout = 0, glu = False, training = False,
      conv = \<lparr>in_channels = 1, out_channels = 2, kernel_size = 1, padding = 0, dilation = 1,
               weight = [[[2]], [[0]]], bias = [0, 0], input_buffer = None\<rparr>\<rparr>
     [[[4]]] = Inr [[[6]]]"
proof -
  let ?cv = "\<lparr>in_channels = 1, out_channels = 2, kernel_size = 1, padding = 0, dilation = 1,
               weight = [[[2]], [[0]]], bias = [0, 0], input_buffer = None\<rparr>"
  let ?m = "\<lparr>causal = False, dropout = 0, glu = False, training = False, conv = ?cv\<rparr>"
  have h1: "\<not> glu ?m" by simp
  have h2: "shape3 1 1 1 [[[4 :: real]]]" by (simp add: shape3_def)
  have h5: "F_dropout (\<lambda>x. x) [[[4]]] (dropout ?m) (training ?m) = Inr [[[4]]]"
    by (simp add: F_dropout_def)
  have h6: "conv_forward (conv ?m) [[[4]]] = Inr [[[8], [0]]]"
    by (simp add: conv_forward_def conv_element_def bindE_def rect_def size1_def
        conv_point_def dot_kernel_def pad_zeros_def)
  have h7: "[[[8], [0 :: real]]] = (if causal ?m then map (map (take (size2 [[[4 :: real]]]))) [[[8], [0]]]
      else [[[8], [0]]])"
    by simp
  have h8: "shape3 1 (2 * 1) 1 [[[8], [0 :: real]]]" by (simp add: shape3_def)
  from highway_gate[OF h1 h2 _ _ h5 h6 h7 h8] obtain out where
    o: "forward (\<lambda>x. x) ?m [[[4]]] = Inr out" "shape3 1 1 1 out"
       "\<forall>b < 1. \<forall>c < 1. \<forall>t < 1.
           out ! b ! c ! t = sigmoid ([[[8], [0]]] ! b ! (1 + c) ! t) * [[[8], [0]]] ! b ! c ! t
                             + (1 - sigmoid ([[[8], [0]]] ! b ! (1 + c) ! t)) * [[[4]]] ! b ! c ! t"
    by auto
  have "out ! 0 ! 0 ! 0 = 6" using o(3) by (simp add: sigmoid_0)
  then have "out = [[[6]]]" using shape3_unit[OF o(2)] by simp
  then show ?thesis using o(1) by simp
qed

theorem glu_gate_example:
  "forward (\<lambda>x. x)
     \<lparr>causal = False, dropout = 0, glu = True, training = False,
      conv = \<lparr>in_channels = 1, out_channels = 2, kernel_size = 1, padding = 0, dilation = 1,
               weight = [[[2]], [[0]]], bias = [0, 0], input_buffer = None\<rparr>\<rparr>
     [[[4]]] = Inr [[[8 * sqrt 0.5]]]"
proof -
  let ?cv = "\<lparr>in_channels = 1, out_channels = 2, kernel_size = 1, padding = 0, dilation = 1,
               weight = [[[2]], [[0]]], bias = [0, 0], input_buffer = None\<rparr>"
  let ?m = "\<lparr>causal = False, dropout = 0, glu = True, training = False, conv = ?cv\<rparr>"
  have h1: "glu ?m" by simp
  have h2: "shape3 1 1 1 [[[4 :: real]]]" by (simp add: shape3_def)
  have h5: "F_dropout (\<lambda>x. x) [[[4]]] (dropout ?m) (training ?m) = Inr [[[4]]]"
    by (simp add: F_dropout_def)
  have h6: "conv_forward (conv ?m) [[[4]]] = Inr [[[8], [0]]]"
    by (simp add: conv_forward_def conv_element_def bindE_def rect_def size1_def
        conv_point_def dot_kernel_def pad_zeros_def)
  have h7: "[[[8], [0 :: real]]] = (if causal ?m then map (map (take (size2 [[[4 :: real]]]))) [[[8], [0]]]
      else [[[8], [0]]])"
    by simp
  have h8: "shape3 1 (2 * 1) 1 [[[8], [0 :: real]]]" by (simp add: shape3_def)
  from glu_gate[OF h1 h2 _ h5 h6 h7 h8] obtain out where
    o: "forward (\<lambda>x. x) ?m [[[4]]] = Inr out" "shape3 1 1 1 out"
       "\<forall>b < 1. \<forall>c < 1. \<forall>t < 1.
           out ! b ! c ! t = ([[[8], [0]]] ! b ! c ! t * sigmoid ([[[8], [0]]] ! b ! (1 + c) ! t)
                              + [[[4]]] ! b ! c ! t) * sqrt 0.5"
    by auto
  have "out ! 0 ! 0 ! 0 = 8 * sqrt 0.5" using o(3) by (simp add: sigmoid_0)
  then have "out = [[[8 * sqrt 0.5]]]" using shape3_unit[OF o(2)] by simp
  then show ?thesis using o(1) by simp
qed

lemma keeps_shape_id: "keeps_shape (\<lambda>x. x)"
  by (simp add: keeps_shape_def)

theorem causal_keeps_length_example:
  "\<exists>m out. HighwayConv1d (\<lambda>std w. w) 1 1 (Some 2) None (Some 1) (Some True) None None None = Inr m
     \<and> forward (\<lambda>x. x) (m\<lparr>training := False\<rparr>) [[[1, 2]]] = Inr out \<and> shape3 1 1 2 out"
proof -
  have c: "HighwayConv1d (\<lambda>std w. w) (int 1) (int 1) (Some 2) None (Some 1) (Some True) None None None
     = Inr \<lparr>causal = True, dropout = 0, glu = False, training = True,
            conv = \<lparr>in_channels = 1, out_channels = 2, kernel_size = 2, padding = 1, dilation = 1,
               weight = [[[0, 0]], [[0, 0]]], bias = [0, 0], input_buffer = None\<rparr>\<rparr>"
    by (simp add: HighwayConv1d_def Conv1d_def new_conv_def init_params_def bindE_def
        py_truediv_def math_sqrt_def or_default_def numeral_2_eq_2)
  have k: "\<forall>std :: real. keeps_shape (\<lambda>w. w)" by (simp add: keeps_shape_id)
  have s: "shape3 1 1 2 [[[1, 2 :: real]]]" by (simp add: shape3_def)
  from causal_keeps_length[OF c k keeps_shape_id s, of False]
  obtain out where "forward (\<lambda>x. x)
      (\<lparr>causal = True, dropout = 0, glu = False, training = True,
            conv = \<lparr>in_channels = 1, out_channels = 2, kernel_size = 2, padding = 1, dilation = 1,
               weight = [[[0, 0]], [[0, 0]]], bias = [0, 0], input_buffer = None\<rparr>\<rparr>
        \<lparr>training := False\<rparr>) [[[1, 2]]] = Inr out" "shape3 1 1 2 out"
    by (auto simp: or_default_def)
  then show ?thesis using c by auto
qed

subsection \<open>Incremental mode against batch mode\<close>

lemma upt_2: "[0..<2] = [0, Suc 0]"
  by (simp add: upt_rec)

lemma upt_3: "[0..<3] = [0, Suc 0, 2]"
  by (simp add: upt_rec numeral_3_eq_3 numeral_2_eq_2)

text \<open>The sliding window over a padded history.\<close>

lemma window_step:
  assumes "0 < R"
  shows "tl (drop t (replicate R z @ map f [0..<t])) @ [f t]
       = drop (Suc t) (replicate R z @ map f [0..<Suc t])"
proof -
  have "tl (drop t (replicate R z @ map f [0..<t])) = drop (Suc t) (replicate R z @ map f [0..<t])"
    by (simp only: drop_Suc tl_drop)
  moreover have "drop (Suc t) ((replicate R z @ map f [0..<t]) @ [f t])
      = drop (Suc t) (replicate R z @ map f [0..<t]) @ [f t]"
    using assms by simp
  moreover have "replicate R z @ map f [0..<Suc t] = (replicate R z @ map f [0..<t]) @ [f t]"
    by simp
  ultimately show ?thesis by (simp only:)
qed

lemma window_nth:
  assumes "i < R"
  shows "drop t (replicate R z @ map f [0..<t]) ! i = (if t + i < R then z else f (t + i - R))"
proof -
  have "t \<le> length (replicate R z @ map f [0..<t])" by simp
  then have "drop t (replicate R z @ map f [0..<t]) ! i = (replicate R z @ map f [0..<t]) ! (t + i)"
    by (rule nth_drop)
  also have "\<dots> = (if t + i < R then z else f (t + i - R))"
    using assms by (simp add: nth_append)
  finally show ?thesis .
qed

lemma length_window: "length (drop t (replicate R z @ map f [0..<t])) = R"
  by simp

lemma pad_zeros_nth:
  assumes "i < p + length xs"
  shows "pad_zeros p xs ! i = (if i < p then 0 else xs ! (i - p))"
  using assms by (auto simp: pad_zeros_def nth_append)

text \<open>One kernel applied to the window after step \<open>t\<close> and to the padded sequence at \<open>t\<close>.\<close>

lemma dot_kernel_window:
  assumes "length kern = K" and "0 < K" and "0 < D" and "R = (K - 1) * D + 1"
    and "t < length xs"
    and "\<And>s. s < length xs \<Longrightarrow> col s ! c = xs ! s" and "z ! c = 0"
  shows "dot_kernel kern (map (\<lambda>step. step ! c) (drop (Suc t) (replicate R z @ map col [0..<Suc t]))) 0 D
       = dot_kernel kern (pad_zeros ((K - 1) * D) xs) t D"
proof -
  let ?w = "drop (Suc t) (replicate R z @ map col [0..<Suc t])"
  have tap: "map (\<lambda>step. step ! c) ?w ! (0 + j * D) = pad_zeros ((K - 1) * D) xs ! (t + j * D)"
    if j: "j < K" for j
  proof -
    have "j \<le> K - 1" using j by simp
    then have jD: "j * D \<le> (K - 1) * D" by (rule mult_le_mono1)
    then have i: "j * D < R" unfolding assms(4) by linarith
    have lw: "length ?w = R" by (rule length_window)
    have "map (\<lambda>step. step ! c) ?w ! (0 + j * D) = ?w ! (j * D) ! c"
      by (simp only: add_0 lw i nth_map)
    also have "?w ! (j * D) = (if Suc t + j * D < R then z else col (Suc t + j * D - R))"
      by (rule window_nth[OF i])
    also have "(if Suc t + j * D < R then z else col (Suc t + j * D - R)) ! c
        = (if t + j * D < (K - 1) * D then 0 else xs ! (t + j * D - (K - 1) * D))"
    proof (cases "t + j * D < (K - 1) * D")
      case True
      then show ?thesis using assms(4,7) by simp
    next
      case False
      have "t + j * D - (K - 1) * D < length xs" using False jD assms(5) by linarith
      then show ?thesis using False assms(4) assms(6)[of "t + j * D - (K - 1) * D"] by simp
    qed
    also have "\<dots> = pad_zeros ((K - 1) * D) xs ! (t + j * D)"
    proof -
      have "t + j * D < (K - 1) * D + length xs" using jD assms(5) by linarith
      then show ?thesis by (rule pad_zeros_nth[symmetric])
    qed
    finally show ?thesis .
  qed
  have "map (\<lambda>j. kern ! j * map (\<lambda>step. step ! c) ?w ! (0 + j * D)) [0..<K]
      = map (\<lambda>j. kern ! j * pad_zeros ((K - 1) * D) xs ! (t + j * D)) [0..<K]"
  proof (rule map_cong[OF refl])
    fix j assume "j \<in> set [0..<K]"
    then have "j < K" by simp
    from tap[OF this] show "kern ! j * map (\<lambda>step. step ! c) ?w ! (0 + j * D)
        = kern ! j * pad_zeros ((K - 1) * D) xs ! (t + j * D)"
      by (simp only:)
  qed
  then show ?thesis unfolding dot_kernel_def assms(1) by (simp only:)
qed


lemma nat_receptive:
  assumes "1 \<le> k" and "1 \<le> d"
  shows "nat ((k - 1) * d + 1) = (nat k - 1) * nat d + 1"
    and "nat ((k - 1) * d) = (nat k - 1) * nat d"
proof -
  have a: "nat ((k - 1) * d) = nat (k - 1) * nat d"
    using assms by (simp add: nat_mult_distrib)
  have b: "nat (k - 1) = nat k - 1" using assms by simp
  show "nat ((k - 1) * d) = (nat k - 1) * nat d" using a b by simp
  have "0 \<le> (k - 1) * d" using assms by simp
  then have "nat ((k - 1) * d + 1) = nat ((k - 1) * d) + 1" by simp
  then show "nat ((k - 1) * d + 1) = (nat k - 1) * nat d + 1" using a b by simp
qed

lemma conv_point_window:
  assumes "length w_o = C" and "\<forall>kern \<in> set w_o. length kern = K" and "0 < K" and "0 < D"
    and "R = (K - 1) * D + 1" and "length xb = C" and "\<forall>chan \<in> set xb. length chan = T"
    and "t < T"
  shows "conv_point w_o
           (channels_of C (drop (Suc t) (replicate R (replicate C 0)
                                          @ map (\<lambda>s. map (\<lambda>chan. chan ! s) xb) [0..<Suc t]))) 0 D
       = conv_point w_o (map (pad_zeros ((K - 1) * D)) xb) t D"
proof -
  let ?col = "\<lambda>s. map (\<lambda>chan. chan ! s) xb"
  let ?w = "drop (Suc t) (replicate R (replicate C 0) @ map ?col [0..<Suc t])"
  have "map (\<lambda>(kern, chan). dot_kernel kern chan 0 D) (zip w_o (channels_of C ?w))
      = map (\<lambda>(kern, chan). dot_kernel kern chan t D) (zip w_o (map (pad_zeros ((K - 1) * D)) xb))"
  proof (rule nth_equalityI)
    show "length (map (\<lambda>(kern, chan). dot_kernel kern chan 0 D) (zip w_o (channels_of C ?w)))
        = length (map (\<lambda>(kern, chan). dot_kernel kern chan t D)
                    (zip w_o (map (pad_zeros ((K - 1) * D)) xb)))"
      using assms(1,6) by (simp add: channels_of_def)
  next
    fix i assume "i < length (map (\<lambda>(kern, chan). dot_kernel kern chan 0 D)
                                (zip w_o (channels_of C ?w)))"
    then have i: "i < C" using assms(1) by (simp add: channels_of_def)
    have kl: "length (w_o ! i) = K" using assms(1,2) i by simp
    have xl: "t < length (xb ! i)" using assms(6,7,8) i by simp
    have ci: "channels_of C ?w ! i = map (\<lambda>step. step ! i) ?w"
      using i by (simp only: channels_of_def nth_map length_upt diff_zero nth_upt add_0)
    have cs: "?col s ! i = xb ! i ! s" for s using assms(6) i by simp
    have z: "replicate C (0 :: real) ! i = 0" using i by simp
    have "dot_kernel (w_o ! i) (map (\<lambda>step. step ! i) ?w) 0 D
        = dot_kernel (w_o ! i) (pad_zeros ((K - 1) * D) (xb ! i)) t D"
      by (rule dot_kernel_window[OF kl assms(3,4,5) xl cs z])
    then show "map (\<lambda>(kern, chan). dot_kernel kern chan 0 D) (zip w_o (channels_of C ?w)) ! i
        = map (\<lambda>(kern, chan). dot_kernel kern chan t D)
            (zip w_o (map (pad_zeros ((K - 1) * D)) xb)) ! i"
      using i assms(1,6) ci by (simp add: channels_of_def del: upt_Suc)
  qed
  then show ?thesis unfolding conv_point_def by (simp only:)
qed


lemma buffer_after_0: "buffer_after R C xb 0 = replicate R (replicate C 0)"
  by (simp add: buffer_after_def)

lemma buffer_after_Suc:
  "0 < R \<Longrightarrow> tl (buffer_after R C xb t) @ [map (\<lambda>chan. chan ! t) xb] = buffer_after R C xb (Suc t)"
  unfolding buffer_after_def by (rule window_step)

lemma time_steps_nth:
  assumes "shape3 B C T x" and "0 < B" and "0 < C" and "t < T"
  shows "time_steps x ! t = map (\<lambda>xb. [map (\<lambda>chan. chan ! t) xb]) x"
  using assms shape3_size2[OF assms(1,2,3)] by (simp add: time_steps_def)

lemma conv_incremental_step:
  assumes "wf_conv cv" and "in_channels cv = int C" and "1 \<le> kernel_size cv"
    and "1 \<le> dilation cv" and "shape3 B C T x" and "t < T"
    and "(case input_buffer cv of
            None \<Rightarrow> replicate (length x) (replicate (receptive_field cv) (replicate (nat (in_channels cv)) 0))
          | Some b \<Rightarrow> b) = map (\<lambda>xb. buffer_after (receptive_field cv) C xb t) x"
  shows "conv_incremental_forward cv (map (\<lambda>xb. [map (\<lambda>chan. chan ! t) xb]) x)
     = Inr (map (\<lambda>xb. [map (\<lambda>(w_o, b_o).
                     b_o + conv_point w_o
                             (map (pad_zeros ((nat (kernel_size cv) - 1) * nat (dilation cv))) xb) t
                             (nat (dilation cv)))
                   (zip (weight cv) (bias cv))]) x,
            cv\<lparr>input_buffer := Some (map (\<lambda>xb. buffer_after (receptive_field cv) C xb (Suc t)) x)\<rparr>)"
proof -
  let ?R = "receptive_field cv" and ?K = "nat (kernel_size cv)" and ?D = "nat (dilation cv)"
  let ?old = "map (\<lambda>xb. buffer_after ?R C xb t) x"
  let ?step = "map (\<lambda>xb. [map (\<lambda>chan. chan ! t) xb]) x"
  have R: "?R = (?K - 1) * ?D + 1"
    unfolding receptive_field_def by (rule nat_receptive(1)[OF assms(3,4)])
  have R0: "0 < ?R" using R by simp
  have K0: "0 < ?K" and D0: "0 < ?D" using assms(3,4) by simp_all
  have xl: "length xb = C" "\<forall>chan \<in> set xb. length chan = T" if "xb \<in> set x" for xb
    using assms(5) that by (auto simp: shape3_def)
  have ok: "\<not> (kernel_size cv < 1 \<or> dilation cv < 1 \<or> length ?old \<noteq> length ?step
            \<or> (\<exists>xb \<in> set ?step. length xb \<noteq> 1 \<or> int (length (hd xb)) \<noteq> in_channels cv))"
    using assms(2,3,4) xl by auto
  have buf: "map2 (\<lambda>window xb. tl window @ [last xb]) ?old ?step
      = map (\<lambda>xb. buffer_after ?R C xb (Suc t)) x"
    by (simp add: zip_map_map zip_same_conv_map buffer_after_Suc[OF R0] del: upt_Suc)
  have out: "map (\<lambda>window.
                [map (\<lambda>(w_o, b_o).
                   b_o + conv_point w_o (channels_of (nat (in_channels cv)) window) 0 ?D)
                 (zip (weight cv) (bias cv))]) (map (\<lambda>xb. buffer_after ?R C xb (Suc t)) x)
      = map (\<lambda>xb. [map (\<lambda>(w_o, b_o).
                     b_o + conv_point w_o (map (pad_zeros ((?K - 1) * ?D)) xb) t ?D)
                   (zip (weight cv) (bias cv))]) x"
  proof -
    have "conv_point w_o (channels_of (nat (in_channels cv)) (buffer_after ?R C xb (Suc t))) 0 ?D
        = conv_point w_o (map (pad_zeros ((?K - 1) * ?D)) xb) t ?D"
      if "xb \<in> set x" "w_o \<in> set (weight cv)" for xb w_o
    proof -
      have w: "length w_o = C" "\<forall>kern \<in> set w_o. length kern = ?K"
        using assms(1,2) that(2) by (auto simp: wf_conv_def)
      show ?thesis
        unfolding buffer_after_def assms(2) nat_int
        by (rule conv_point_window[OF w K0 D0 R xl[OF that(1)] assms(6)])
    qed
    then show ?thesis by (auto dest: set_zip_leftD)
  qed
  have view: "(case input_buffer cv of
            None \<Rightarrow> replicate (length ?step) (replicate ?R (replicate (nat (in_channels cv)) 0))
          | Some b \<Rightarrow> b) = ?old"
    by (cases "input_buffer cv") (use assms(7) in simp_all)
  show ?thesis
    by (simp only: conv_incremental_forward_def Let_def view if_not_P[OF ok] buf out)
qed


lemma length_conv_at: "wf_conv cv \<Longrightarrow> length (conv_at cv xb t) = nat (out_channels cv)"
  by (simp add: conv_at_def wf_conv_def)

lemma take_last_shape: "shape3 B M (2 * C) y \<Longrightarrow> shape3 B M C (map (map (take C)) y)"
  by (auto simp: shape3_def)

lemma drop_last_shape: "shape3 B M (2 * C) y \<Longrightarrow> shape3 B M C (map (map (drop C)) y)"
  by (auto simp: shape3_def)

lemma take_last_nth:
  "shape3 B M (2 * C) y \<Longrightarrow> b < B \<Longrightarrow> i < M \<Longrightarrow> c < C
     \<Longrightarrow> map (map (take C)) y ! b ! i ! c = y ! b ! i ! c"
  by (simp add: shape3_length shape3_nth)

lemma drop_last_nth:
  "shape3 B M (2 * C) y \<Longrightarrow> b < B \<Longrightarrow> i < M \<Longrightarrow> c < C
     \<Longrightarrow> map (map (drop C)) y ! b ! i ! c = y ! b ! i ! (C + c)"
  by (simp add: shape3_length shape3_nth shape3_nth_nth)

lemma split_last_halves:
  assumes "shape3 B M (2 * C) y" and "0 < B" and "0 < M" and "0 < C"
  shows "bindE (split_last (size2 y div 2) y) unpack2
       = Inr (map (map (take C)) y, map (map (drop C)) y)"
proof -
  have s: "size2 y = 2 * C" by (rule shape3_size2[OF assms(1,2,3)])
  have h: "size2 y div 2 = C" using s by simp
  have "2 * C + C - 1 = (C - 1) + 2 * C" using assms(4) by simp
  then have "(2 * C + C - 1) div C = 2" using assms(4) by (simp only: div_mult_self1) simp
  then have idx: "[0..<(size2 y + C - 1) div C] = [0, Suc 0]"
    using s by (simp add: upt_rec)
  have d: "map (map (\<lambda>row. take C (drop C row))) y = map (map (drop C)) y"
    using assms(1) by (auto simp: shape3_def)
  have "split_last C y = Inr [map (map (take C)) y, map (map (drop C)) y]"
    using assms(4) idx d by (simp add: split_last_def)
  then show ?thesis by (simp add: h unpack2_def bindE_def)
qed

lemma F_glu_last_halves:
  assumes "shape3 B M (2 * C) y" and "0 < B" and "0 < M"
  shows "F_glu_last y = Inr (map2 (map2 (map2 (\<lambda>a b. a * sigmoid b)))
                              (map (map (take C)) y) (map (map (drop C)) y))"
proof -
  have s: "size2 y = 2 * C" by (rule shape3_size2[OF assms])
  have "map (map (\<lambda>row. map2 (\<lambda>a b. a * sigmoid b) (take C row) (drop C row))) y
      = map2 (map2 (map2 (\<lambda>a b. a * sigmoid b))) (map (map (take C)) y) (map (map (drop C)) y)"
    by (simp add: zip_map_map map_zip_map map_zip_map2 zip_same_conv_map)
  then show ?thesis by (simp add: F_glu_last_def s)
qed

text \<open>What the gating computes entrywise, in either mode and either layout.\<close>

lemma highway_mix_nth:
  assumes "shape3 B M C a" and "shape3 B M C g" and "shape3 B M C r"
    and "i < B" and "j < M" and "k < C"
  shows "map2 (map2 (map2 (+)))
           (map2 (map2 (map2 (*))) (tmap sigmoid g) a)
           (map2 (map2 (map2 (*))) (tmap (\<lambda>v. 1 - v) (tmap sigmoid g)) r) ! i ! j ! k
       = gate False (a ! i ! j ! k) (g ! i ! j ! k) (r ! i ! j ! k)"
proof -
  let ?T = "tmap sigmoid g"
  let ?ta = "map2 (map2 (map2 (*))) ?T a"
  let ?tr = "map2 (map2 (map2 (*))) (tmap (\<lambda>v. 1 - v) ?T) r"
  have sT: "shape3 B M C ?T" by (rule tmap_shape[OF assms(2)])
  have sT1: "shape3 B M C (tmap (\<lambda>v. 1 - v) ?T)" by (rule tmap_shape[OF sT])
  have sta: "shape3 B M C ?ta" by (rule map2_3_shape[OF sT assms(1)])
  have str: "shape3 B M C ?tr" by (rule map2_3_shape[OF sT1 assms(3)])
  have "map2 (map2 (map2 (+))) ?ta ?tr ! i ! j ! k = ?ta ! i ! j ! k + ?tr ! i ! j ! k"
    by (rule map2_3_nth[OF sta str assms(4,5,6)])
  also have "?ta ! i ! j ! k = ?T ! i ! j ! k * a ! i ! j ! k"
    by (rule map2_3_nth[OF sT assms(1,4,5,6)])
  also have "?tr ! i ! j ! k = tmap (\<lambda>v. 1 - v) ?T ! i ! j ! k * r ! i ! j ! k"
    by (rule map2_3_nth[OF sT1 assms(3,4,5,6)])
  also have "tmap (\<lambda>v. 1 - v) ?T ! i ! j ! k = 1 - ?T ! i ! j ! k"
    by (rule tmap_nth[OF sT assms(4,5,6)])
  also have "?T ! i ! j ! k = sigmoid (g ! i ! j ! k)" by (rule tmap_nth[OF assms(2,4,5,6)])
  finally show ?thesis by (simp add: gate_def)
qed

lemma highway_mix_shape:
  assumes "shape3 B M C a" and "shape3 B M C g" and "shape3 B M C r"
  shows "shape3 B M C (map2 (map2 (map2 (+)))
           (map2 (map2 (map2 (*))) (tmap sigmoid g) a)
           (map2 (map2 (map2 (*))) (tmap (\<lambda>v. 1 - v) (tmap sigmoid g)) r))"
  by (intro map2_3_shape tmap_shape assms)

lemma glu_mix_nth:
  assumes "shape3 B M C a" and "shape3 B M C g" and "shape3 B M C r"
    and "i < B" and "j < M" and "k < C"
  shows "tmap (\<lambda>v. v * sqrt 0.5)
           (map2 (map2 (map2 (+))) (map2 (map2 (map2 (\<lambda>a b. a * sigmoid b))) a g) r) ! i ! j ! k
       = gate True (a ! i ! j ! k) (g ! i ! j ! k) (r ! i ! j ! k)"
proof -
  let ?g = "map2 (map2 (map2 (\<lambda>a b. a * sigmoid b))) a g"
  let ?s = "map2 (map2 (map2 (+))) ?g r"
  have sg: "shape3 B M C ?g" by (rule map2_3_shape[OF assms(1,2)])
  have ss: "shape3 B M C ?s" by (rule map2_3_shape[OF sg assms(3)])
  have "tmap (\<lambda>v. v * sqrt 0.5) ?s ! i ! j ! k = ?s ! i ! j ! k * sqrt 0.5"
    by (rule tmap_nth[OF ss assms(4,5,6)])
  also have "?s ! i ! j ! k = ?g ! i ! j ! k + r ! i ! j ! k"
    by (rule map2_3_nth[OF sg assms(3,4,5,6)])
  also have "?g ! i ! j ! k = a ! i ! j ! k * sigmoid (g ! i ! j ! k)"
    by (rule map2_3_nth[OF assms(1,2,4,5,6)])
  finally show ?thesis by (simp add: gate_def)
qed

lemma glu_mix_shape:
  assumes "shape3 B M C a" and "shape3 B M C g" and "shape3 B M C r"
  shows "shape3 B M C (tmap (\<lambda>v. v * sqrt 0.5)
           (map2 (map2 (map2 (+))) (map2 (map2 (map2 (\<lambda>a b. a * sigmoid b))) a g) r))"
  by (intro map2_3_shape tmap_shape assms)


lemma conv_at_buffer: "conv_at (cv\<lparr>input_buffer := bo\<rparr>) = conv_at cv"
  by (intro ext) (simp add: conv_at_def)

lemma incremental_forward_step:
  assumes "wf_conv (conv m)" and "in_channels (conv m) = int C"
    and "out_channels (conv m) = 2 * int C"
    and "1 \<le> kernel_size (conv m)" and "1 \<le> dilation (conv m)"
    and "shape3 B C T x" and "0 < B" and "0 < C" and "t < T"
    and "0 \<le> dropout m" and "dropout m \<le> 1" and "\<not> training m \<or> dropout m = 0"
    and "(case bo of
            None \<Rightarrow> replicate (length x) (replicate (receptive_field (conv m))
                       (replicate (nat (in_channels (conv m))) 0))
          | Some b \<Rightarrow> b) = map (\<lambda>xb. buffer_after (receptive_field (conv m)) C xb t) x"
  shows "\<exists>Y. incremental_forward noise (m\<lparr>conv := (conv m)\<lparr>input_buffer := bo\<rparr>\<rparr>) (time_steps x ! t)
           = Inr (Y, m\<lparr>conv := (conv m)\<lparr>input_buffer :=
                        Some (map (\<lambda>xb. buffer_after (receptive_field (conv m)) C xb (Suc t)) x)\<rparr>\<rparr>)
     \<and> shape3 B 1 C Y
     \<and> (\<forall>b < B. \<forall>c < C. Y ! b ! 0 ! c =
           gate (glu m) (conv_at (conv m) (x ! b) t ! c) (conv_at (conv m) (x ! b) t ! (C + c))
             (x ! b ! c ! t))"
proof -
  let ?cv = "(conv m)\<lparr>input_buffer := bo\<rparr>"
  let ?M = "m\<lparr>conv := ?cv\<rparr>"
  let ?R = "receptive_field (conv m)"
  let ?cv' = "(conv m)\<lparr>input_buffer := Some (map (\<lambda>xb. buffer_after ?R C xb (Suc t)) x)\<rparr>"
  define step where "step = map (\<lambda>xb. [map (\<lambda>chan. chan ! t) xb]) x"
  define y where "y = map (\<lambda>xb. [conv_at (conv m) xb t]) x"
  define a where "a = map (map (take C)) y"
  define g where "g = map (map (drop C)) y"
  have st: "time_steps x ! t = step"
    unfolding step_def by (rule time_steps_nth[OF assms(6,7,8,9)])
  have sstep: "shape3 B 1 C step" using assms(6) by (auto simp: shape3_def step_def)
  have stepv: "step ! b ! 0 ! c = x ! b ! c ! t" if "b < B" "c < C" for b c
    using that assms(6) by (simp add: shape3_length shape3_nth step_def)
  have wf: "wf_conv ?cv" using assms(1) by (simp add: wf_conv_def)
  have rf: "receptive_field ((conv m)\<lparr>input_buffer := b'\<rparr>) = ?R" for b'
    by (simp add: receptive_field_def)
  have view: "(case input_buffer ?cv of
            None \<Rightarrow> replicate (length x) (replicate (receptive_field ?cv)
                       (replicate (nat (in_channels ?cv)) 0))
          | Some b \<Rightarrow> b) = map (\<lambda>xb. buffer_after (receptive_field ?cv) C xb t) x"
    using assms(13) by (cases bo) (simp_all add: rf)
  have "conv_incremental_forward ?cv (map (\<lambda>xb. [map (\<lambda>chan. chan ! t) xb]) x)
     = Inr (map (\<lambda>xb. [conv_at ?cv xb t]) x,
            ?cv\<lparr>input_buffer := Some (map (\<lambda>xb. buffer_after (receptive_field ?cv) C xb (Suc t)) x)\<rparr>)"
    unfolding conv_at_def
    by (rule conv_incremental_step[OF wf _ _ _ assms(6,9) view]) (use assms(2,4,5) in simp_all)
  then have ci: "conv_incremental_forward ?cv step = Inr (y, ?cv')"
    by (simp add: conv_at_buffer rf step_def y_def)
  have sy: "shape3 B 1 (2 * C) y"
    using assms(1,3,6) by (auto simp: shape3_def length_conv_at nat_mult_distrib y_def)
  have yv: "y ! b ! 0 = conv_at (conv m) (x ! b) t" if "b < B" for b
    using that assms(6) by (simp add: shape3_length y_def)
  have sa: "shape3 B 1 C a" and sg: "shape3 B 1 C g"
    unfolding a_def g_def using sy by (rule take_last_shape, rule drop_last_shape)
  have av: "a ! b ! 0 ! c = conv_at (conv m) (x ! b) t ! c" if "b < B" "c < C" for b c
    using take_last_nth[OF sy that(1) _ that(2), of 0] yv[OF that(1)] by (simp add: a_def)
  have gv: "g ! b ! 0 ! c = conv_at (conv m) (x ! b) t ! (C + c)" if "b < B" "c < C" for b c
    using drop_last_nth[OF sy that(1) _ that(2), of 0] yv[OF that(1)] by (simp add: g_def)
  have dr: "F_dropout noise step (dropout m) (training m) = Inr step"
    using assms(10,11,12) by (auto simp: F_dropout_def)
  show ?thesis
  proof (cases "glu m")
    case True
    define Y where "Y = tmap (\<lambda>v. v * sqrt 0.5)
           (map2 (map2 (map2 (+))) (map2 (map2 (map2 (\<lambda>a b. a * sigmoid b))) a g) step)"
    have gl: "F_glu_last y = Inr (map2 (map2 (map2 (\<lambda>a b. a * sigmoid b))) a g)"
      unfolding a_def g_def by (rule F_glu_last_halves[OF sy assms(7)]) simp
    have e: "ewise (+) (map2 (map2 (map2 (\<lambda>a b. a * sigmoid b))) a g) step
        = Inr (map2 (map2 (map2 (+))) (map2 (map2 (map2 (\<lambda>a b. a * sigmoid b))) a g) step)"
      by (rule ewise_same[OF map2_3_shape[OF sa sg] sstep])
    have "forward' noise ?M step True = Inr (Y, m\<lparr>conv := ?cv'\<rparr>)"
      using True by (simp add: forward'_def Let_def dr ci gl e bindE_Inr Y_def)
    then have r: "incremental_forward noise ?M (time_steps x ! t) = Inr (Y, m\<lparr>conv := ?cv'\<rparr>)"
      by (simp add: incremental_forward_def st)
    have sh: "shape3 B 1 C Y" unfolding Y_def by (rule glu_mix_shape[OF sa sg sstep])
    have pt: "Y ! b ! 0 ! c =
           gate (glu m) (conv_at (conv m) (x ! b) t ! c) (conv_at (conv m) (x ! b) t ! (C + c))
             (x ! b ! c ! t)" if "b < B" "c < C" for b c
      unfolding Y_def
      using glu_mix_nth[OF sa sg sstep that(1) _ that(2), of 0] av[OF that] gv[OF that]
        stepv[OF that] True by simp
    show ?thesis using r sh pt by blast
  next
    case False
    define Y where "Y = map2 (map2 (map2 (+)))
           (map2 (map2 (map2 (*))) (tmap sigmoid g) a)
           (map2 (map2 (map2 (*))) (tmap (\<lambda>v. 1 - v) (tmap sigmoid g)) step)"
    have sT: "shape3 B 1 C (tmap sigmoid g)" by (rule tmap_shape[OF sg])
    have sT1: "shape3 B 1 C (tmap (\<lambda>v. 1 - v) (tmap sigmoid g))" by (rule tmap_shape[OF sT])
    have sp: "bindE (split_last (size2 y div 2) y) unpack2 = Inr (a, g)"
      unfolding a_def g_def by (rule split_last_halves[OF sy assms(7) _ assms(8)]) simp
    have e1: "ewise (*) (tmap sigmoid g) a = Inr (map2 (map2 (map2 (*))) (tmap sigmoid g) a)"
      by (rule ewise_same[OF sT sa])
    have e2: "ewise (*) (tmap (\<lambda>v. 1 - v) (tmap sigmoid g)) step
        = Inr (map2 (map2 (map2 (*))) (tmap (\<lambda>v. 1 - v) (tmap sigmoid g)) step)"
      by (rule ewise_same[OF sT1 sstep])
    have e3: "ewise (+) (map2 (map2 (map2 (*))) (tmap sigmoid g) a)
           (map2 (map2 (map2 (*))) (tmap (\<lambda>v. 1 - v) (tmap sigmoid g)) step) = Inr Y"
      unfolding Y_def
      by (rule ewise_same[OF map2_3_shape[OF sT sa] map2_3_shape[OF sT1 sstep]])
    have "forward' noise ?M step True = Inr (Y, m\<lparr>conv := ?cv'\<rparr>)"
      using False by (simp add: forward'_def Let_def dr ci sp e1 e2 e3 bindE_Inr)
    then have r: "incremental_forward noise ?M (time_steps x ! t) = Inr (Y, m\<lparr>conv := ?cv'\<rparr>)"
      by (simp add: incremental_forward_def st)
    have sh: "shape3 B 1 C Y" unfolding Y_def by (rule highway_mix_shape[OF sa sg sstep])
    have pt: "Y ! b ! 0 ! c =
           gate (glu m) (conv_at (conv m) (x ! b) t ! c) (conv_at (conv m) (x ! b) t ! (C + c))
             (x ! b ! c ! t)" if "b < B" "c < C" for b c
      unfolding Y_def
      using highway_mix_nth[OF sa sg sstep that(1) _ that(2), of 0] av[OF that] gv[OF that]
        stepv[OF that] False by simp
    show ?thesis using r sh pt by blast
  qed
qed


lemma conv_forward_value:
  assumes "wf_conv cv" and "shape3 B C T x" and "0 < C" and "int C = in_channels cv"
    and "1 \<le> kernel_size cv" and "1 \<le> dilation cv" and "0 \<le> padding cv"
    and "len = int T + 2 * padding cv - dilation cv * (kernel_size cv - 1)" and "1 \<le> len"
  shows "conv_forward cv x =
     Inr (map (\<lambda>xb. map (\<lambda>(w_o, b_o).
                     map (\<lambda>t. b_o + conv_point w_o (map (pad_zeros (nat (padding cv))) xb) t
                                      (nat (dilation cv)))
                       [0..<nat len])
                   (zip (weight cv) (bias cv))) x)"
proof -
  let ?g = "\<lambda>xb. map (\<lambda>(w_o, b_o).
                     map (\<lambda>t. b_o + conv_point w_o (map (pad_zeros (nat (padding cv))) xb) t
                                      (nat (dilation cv)))
                       [0..<nat len])
                   (zip (weight cv) (bias cv))"
  have el: "conv_element cv xb = Inr (?g xb)" if "xb \<in> set x" for xb
  proof -
    have l: "length xb = C" and r: "\<forall>r \<in> set xb. length r = T"
      using assms(2) that by (auto simp: shape3_def)
    have "xb \<noteq> []" using l assms(3) by auto
    then have s: "size1 xb = T" using r by (cases xb) (auto simp: size1_def)
    have "rect xb" using r s by (simp add: rect_def)
    then show ?thesis
      using l s assms(4-9) by (simp add: conv_element_def Let_def)
  qed
  show ?thesis unfolding conv_forward_def by (rule mapE_Inr) (use el in blast)
qed

lemma forward_pointwise:
  assumes "wf_conv (conv m)" and "in_channels (conv m) = int C"
    and "out_channels (conv m) = 2 * int C"
    and "1 \<le> kernel_size (conv m)" and "1 \<le> dilation (conv m)"
    and "padding (conv m) = (kernel_size (conv m) - 1) * dilation (conv m)"
    and "causal m \<or> kernel_size (conv m) = 1"
    and "shape3 B C T x" and "0 < B" and "0 < C" and "0 < T"
    and "0 \<le> dropout m" and "dropout m \<le> 1" and "\<not> training m \<or> dropout m = 0"
  shows "\<exists>out. forward noise m x = Inr out \<and> shape3 B C T out
     \<and> (\<forall>b < B. \<forall>c < C. \<forall>t < T. out ! b ! c ! t =
           gate (glu m) (conv_at (conv m) (x ! b) t ! c) (conv_at (conv m) (x ! b) t ! (C + c))
             (x ! b ! c ! t))"
proof -
  let ?K = "nat (kernel_size (conv m))" and ?D = "nat (dilation (conv m))"
  define len where
    "len = int T + 2 * padding (conv m) - dilation (conv m) * (kernel_size (conv m) - 1)"
  have len: "len = int T + (kernel_size (conv m) - 1) * dilation (conv m)"
    by (simp add: len_def assms(6))
  have p0: "0 \<le> padding (conv m)" using assms(4,5,6) by simp
  have len1: "1 \<le> len" and lenT: "T \<le> nat len" using len p0 assms(6,11) by auto
  have lenk: "nat len = T" if "kernel_size (conv m) = 1" using that len by simp
  have P: "nat (padding (conv m)) = (?K - 1) * ?D"
    unfolding assms(6) by (rule nat_receptive(2)[OF assms(4,5)])
  define f where "f = (\<lambda>xb (w_o, b_o) t.
      b_o + conv_point w_o (map (pad_zeros ((?K - 1) * ?D)) xb) t ?D)"
  define x2 where
    "x2 = map (\<lambda>xb. map (\<lambda>wb. map (f xb wb) [0..<nat len]) (zip (weight (conv m)) (bias (conv m)))) x"
  define y where "y = (if causal m then map (map (take (size2 x))) x2 else x2)"
  have dr: "F_dropout noise x (dropout m) (training m) = Inr x"
    using assms(12,13,14) by (auto simp: F_dropout_def)
  have "conv_forward (conv m) x = Inr x2"
    unfolding x2_def f_def P[symmetric]
    using conv_forward_value[OF assms(1,8,10) assms(2)[symmetric] assms(4,5) p0 len_def len1]
    by (simp add: case_prod_unfold)
  then have cf: "conv_forward (conv m) x = Inr x2" .
  have sz: "size2 x = T" by (rule shape3_size2[OF assms(8,9,10)])
  have yv: "y = map (\<lambda>xb. map (\<lambda>wb. map (f xb wb) [0..<T])
                          (zip (weight (conv m)) (bias (conv m)))) x"
  proof (cases "causal m")
    case True
    have "take T (map g [0..<nat len]) = map g [0..<T]" for g :: "nat \<Rightarrow> real"
      using lenT by (simp add: take_map)
    then show ?thesis using True by (simp add: y_def x2_def sz)
  next
    case False
    then have "nat len = T" using assms(7) lenk by simp
    then show ?thesis using False by (simp add: y_def x2_def)
  qed
  have zl: "length (zip (weight (conv m)) (bias (conv m))) = 2 * C"
    using assms(1,3) by (simp add: wf_conv_def nat_mult_distrib)
  have sy: "shape3 B (2 * C) T y"
    unfolding yv using assms(8) zl by (auto simp: shape3_def)
  have yp: "y ! b ! j ! t = conv_at (conv m) (x ! b) t ! j" if "b < B" "j < 2 * C" "t < T" for b j t
    using that zl assms(8) by (simp add: yv conv_at_def f_def shape3_length case_prod_unfold)
  define a where "a = map (take C) y"
  define g where "g = map (drop C) y"
  have sa: "shape3 B C T a" and sg: "shape3 B C T g"
    unfolding a_def g_def using sy by (rule take_half_shape, rule drop_half_shape)
  have av: "a ! b ! c ! t = conv_at (conv m) (x ! b) t ! c" if "b < B" "c < C" "t < T" for b c t
    using take_half_nth[OF sy that(1,2)] yp[of b c t] that by (simp add: a_def)
  have gv: "g ! b ! c ! t = conv_at (conv m) (x ! b) t ! (C + c)" if "b < B" "c < C" "t < T" for b c t
    using drop_half_nth[OF sy that(1,2)] yp[of b "C + c" t] that by (simp add: g_def)
  show ?thesis
  proof (cases "glu m")
    case True
    define out where "out = tmap (\<lambda>v. v * sqrt 0.5)
            (map2 (map2 (map2 (+))) (map2 (map2 (map2 (\<lambda>a b. a * sigmoid b))) a g) x)"
    have r: "forward noise m x = Inr out"
      unfolding out_def a_def g_def
      by (rule forward_glu_value[OF True assms(8,9) dr cf y_def sy])
    have sh: "shape3 B C T out" unfolding out_def by (rule glu_mix_shape[OF sa sg assms(8)])
    have pt: "out ! b ! c ! t =
           gate (glu m) (conv_at (conv m) (x ! b) t ! c) (conv_at (conv m) (x ! b) t ! (C + c))
             (x ! b ! c ! t)" if "b < B" "c < C" "t < T" for b c t
      unfolding out_def
      using glu_mix_nth[OF sa sg assms(8) that] av[OF that] gv[OF that] True by simp
    show ?thesis using r sh pt by blast
  next
    case False
    define out where "out = map2 (map2 (map2 (+)))
            (map2 (map2 (map2 (*))) (tmap sigmoid g) a)
            (map2 (map2 (map2 (*))) (tmap (\<lambda>v. 1 - v) (tmap sigmoid g)) x)"
    have r: "forward noise m x = Inr out"
      unfolding out_def a_def g_def
      by (rule forward_highway_value[OF False assms(8,9,10) dr cf y_def sy])
    have sh: "shape3 B C T out" unfolding out_def by (rule highway_mix_shape[OF sa sg assms(8)])
    have pt: "out ! b ! c ! t =
           gate (glu m) (conv_at (conv m) (x ! b) t ! c) (conv_at (conv m) (x ! b) t ! (C + c))
             (x ! b ! c ! t)" if "b < B" "c < C" "t < T" for b c t
      unfolding out_def
      using highway_mix_nth[OF sa sg assms(8) that] av[OF that] gv[OF that] False by simp
    show ?thesis using r sh pt by blast
  qed
qed


lemma length_time_steps:
  "shape3 B C T x \<Longrightarrow> 0 < B \<Longrightarrow> 0 < C \<Longrightarrow> length (time_steps x) = T"
  using shape3_size2[of B C T x] by (simp add: time_steps_def)

lemma incremental_run_from:
  assumes "wf_conv (conv m)" and "in_channels (conv m) = int C"
    and "out_channels (conv m) = 2 * int C"
    and "1 \<le> kernel_size (conv m)" and "1 \<le> dilation (conv m)"
    and "shape3 B C T x" and "0 < B" and "0 < C"
    and "0 \<le> dropout m" and "dropout m \<le> 1" and "\<not> training m \<or> dropout m = 0"
    and "t0 \<le> T"
    and "(case bo of
            None \<Rightarrow> replicate (length x) (replicate (receptive_field (conv m))
                       (replicate (nat (in_channels (conv m))) 0))
          | Some b \<Rightarrow> b) = map (\<lambda>xb. buffer_after (receptive_field (conv m)) C xb t0) x"
  shows "\<exists>ys M. incremental_run noise (m\<lparr>conv := (conv m)\<lparr>input_buffer := bo\<rparr>\<rparr>)
                   (drop t0 (time_steps x)) = Inr (ys, M)
     \<and> length ys = T - t0
     \<and> (\<forall>i < T - t0. shape3 B 1 C (ys ! i)
           \<and> (\<forall>b < B. \<forall>c < C. ys ! i ! b ! 0 ! c =
                 gate (glu m) (conv_at (conv m) (x ! b) (t0 + i) ! c)
                   (conv_at (conv m) (x ! b) (t0 + i) ! (C + c)) (x ! b ! c ! (t0 + i))))"
  using assms(12,13)
proof (induction "T - t0" arbitrary: t0 bo)
  case 0
  then have "drop t0 (time_steps x) = []"
    using length_time_steps[OF assms(6,7,8)] by simp
  then show ?case using 0 by simp
next
  case (Suc n)
  let ?R = "receptive_field (conv m)"
  let ?bo = "Some (map (\<lambda>xb. buffer_after ?R C xb (Suc t0)) x)"
  have t0: "t0 < T" using Suc.hyps(2) by simp
  have n: "n = T - Suc t0" using Suc.hyps(2) by simp
  have dr: "drop t0 (time_steps x) = time_steps x ! t0 # drop (Suc t0) (time_steps x)"
    using t0 length_time_steps[OF assms(6,7,8)] by (simp add: Cons_nth_drop_Suc)
  from incremental_forward_step[OF assms(1-8) t0 assms(9,10,11) Suc.prems(2), of noise]
  obtain Y where
    Y: "incremental_forward noise (m\<lparr>conv := (conv m)\<lparr>input_buffer := bo\<rparr>\<rparr>) (time_steps x ! t0)
           = Inr (Y, m\<lparr>conv := (conv m)\<lparr>input_buffer := ?bo\<rparr>\<rparr>)"
       "shape3 B 1 C Y"
       "\<forall>b < B. \<forall>c < C. Y ! b ! 0 ! c =
           gate (glu m) (conv_at (conv m) (x ! b) t0 ! c) (conv_at (conv m) (x ! b) t0 ! (C + c))
             (x ! b ! c ! t0)"
    by blast
  have v: "(case ?bo of
            None \<Rightarrow> replicate (length x) (replicate ?R (replicate (nat (in_channels (conv m))) 0))
          | Some b \<Rightarrow> b) = map (\<lambda>xb. buffer_after ?R C xb (Suc t0)) x"
    by simp
  have le: "Suc t0 \<le> T" using t0 by simp
  from Suc.hyps(1)[OF n le v] obtain ys M where
    ys: "incremental_run noise (m\<lparr>conv := (conv m)\<lparr>input_buffer := ?bo\<rparr>\<rparr>)
           (drop (Suc t0) (time_steps x)) = Inr (ys, M)"
        "length ys = T - Suc t0"
        "\<forall>i < T - Suc t0. shape3 B 1 C (ys ! i)
           \<and> (\<forall>b < B. \<forall>c < C. ys ! i ! b ! 0 ! c =
                 gate (glu m) (conv_at (conv m) (x ! b) (Suc t0 + i) ! c)
                   (conv_at (conv m) (x ! b) (Suc t0 + i) ! (C + c)) (x ! b ! c ! (Suc t0 + i)))"
    by blast
  have run: "incremental_run noise (m\<lparr>conv := (conv m)\<lparr>input_buffer := bo\<rparr>\<rparr>)
           (drop t0 (time_steps x)) = Inr (Y # ys, M)"
    unfolding dr by (simp add: Y(1) ys(1) bindE_Inr)
  have len: "length (Y # ys) = T - t0" using ys(2) t0 by simp
  have ent: "shape3 B 1 C ((Y # ys) ! i)
           \<and> (\<forall>b < B. \<forall>c < C. (Y # ys) ! i ! b ! 0 ! c =
                 gate (glu m) (conv_at (conv m) (x ! b) (t0 + i) ! c)
                   (conv_at (conv m) (x ! b) (t0 + i) ! (C + c)) (x ! b ! c ! (t0 + i)))"
    if "i < T - t0" for i
  proof (cases i)
    case 0
    then show ?thesis using Y(2,3) by simp
  next
    case (Suc j)
    then have "j < T - Suc t0" using that by simp
    then show ?thesis using ys(3) Suc by simp
  qed
  show ?case using run len ent by blast
qed

lemma concat_singletons:
  assumes "\<forall>z \<in> set zs. length (f z) = 1"
  shows "concat (map f zs) = map (\<lambda>z. f z ! 0) zs"
  using assms
proof (induction zs)
  case Nil
  then show ?case by simp
next
  case (Cons z zs)
  have "length (f z) = 1" using Cons.prems by simp
  then have "f z = [f z ! 0]" by (cases "f z") auto
  then show ?case using Cons by simp
qed

lemma cat_transpose:
  assumes "length ys = T" and "0 < T" and "0 < C"
    and "\<forall>t < T. shape3 B 1 C (ys ! t)" and "shape3 B C T out"
    and "\<forall>t < T. \<forall>b < B. \<forall>c < C. ys ! t ! b ! 0 ! c = out ! b ! c ! t"
  shows "cat_dim1 ys = transpose12 out"
proof -
  obtain y0 ys' where ys: "ys = y0 # ys'" using assms(1,2) by (cases ys) auto
  have "shape3 B 1 C (ys ! 0)" using assms(2,4) by simp
  then have l0: "length y0 = B" using ys by (simp add: shape3_def)
  have cat: "cat_dim1 ys = map (\<lambda>b. concat (map (\<lambda>z. z ! b) ys)) [0..<B]"
    by (simp add: cat_dim1_def ys l0)
  show ?thesis
  proof (rule nth_equalityI)
    show "length (cat_dim1 ys) = length (transpose12 out)"
      using assms(5) by (simp add: cat transpose12_def shape3_length)
  next
    fix b assume "b < length (cat_dim1 ys)"
    then have b: "b < B" by (simp add: cat)
    have one: "\<forall>z \<in> set ys. length (z ! b) = 1"
    proof
      fix z assume "z \<in> set ys"
      then obtain t where "t < T" "z = ys ! t" using assms(1) by (auto simp: in_set_conv_nth)
      then have "shape3 B 1 C z" using assms(4) by simp
      then show "length (z ! b) = 1" using b by (rule shape3_nth)
    qed
    have l: "cat_dim1 ys ! b = map (\<lambda>z. z ! b ! 0) ys"
      using b concat_singletons[OF one] by (simp add: cat)
    have ob: "length (out ! b) = C" using assms(5) b by (simp add: shape3_nth)
    then have "out ! b \<noteq> []" using assms(3) by auto
    then have s1: "size1 (out ! b) = T"
      using shape3_nth_nth[OF assms(5) b, of 0] assms(3) by (cases "out ! b") (auto simp: size1_def)
    have r: "transpose12 out ! b = map (\<lambda>t. map (\<lambda>chan. chan ! t) (out ! b)) [0..<T]"
      using b assms(5) by (simp add: transpose12_def shape3_length s1)
    have "map (\<lambda>z. z ! b ! 0) ys = map (\<lambda>t. map (\<lambda>chan. chan ! t) (out ! b)) [0..<T]"
    proof (rule nth_equalityI)
      show "length (map (\<lambda>z. z ! b ! 0) ys)
          = length (map (\<lambda>t. map (\<lambda>chan. chan ! t) (out ! b)) [0..<T])"
        using assms(1) by simp
    next
      fix t assume "t < length (map (\<lambda>z. z ! b ! 0) ys)"
      then have t: "t < T" using assms(1) by simp
      have sh: "shape3 B 1 C (ys ! t)" using assms(4) t by simp
      have "ys ! t ! b ! 0 = map (\<lambda>chan. chan ! t) (out ! b)"
      proof (rule nth_equalityI)
        show "length (ys ! t ! b ! 0) = length (map (\<lambda>chan. chan ! t) (out ! b))"
          using shape3_nth_nth[OF sh b, of 0] ob by simp
      next
        fix c assume "c < length (ys ! t ! b ! 0)"
        then have c: "c < C" using shape3_nth_nth[OF sh b, of 0] by simp
        show "ys ! t ! b ! 0 ! c = map (\<lambda>chan. chan ! t) (out ! b) ! c"
          using assms(6) t b c ob by simp
      qed
      then show "map (\<lambda>z. z ! b ! 0) ys ! t
          = map (\<lambda>t. map (\<lambda>chan. chan ! t) (out ! b)) [0..<T] ! t"
        using t assms(1) by simp
    qed
    then show "cat_dim1 ys ! b = transpose12 out ! b" using l r by simp
  qed
qed

text \<open>
  Claim C1, amended. For a Highway block whose convolution sees no future step (padding
  (kernel_size - 1) * dilation, and causal trimming or kernel size 1), with dropout
  inactive and a cleared buffer, running \<open>incremental_forward\<close> over the T successive time
  steps of an input of shape (B, C, T) and concatenating the T outputs gives exactly the
  batch \<open>forward\<close> result, in the layout (B, T, C).
\<close>

theorem incremental_matches_batch:
  assumes "wf_conv (conv m)" and "in_channels (conv m) = int C"
    and "out_channels (conv m) = 2 * int C"
    and "1 \<le> kernel_size (conv m)" and "1 \<le> dilation (conv m)"
    and "padding (conv m) = (kernel_size (conv m) - 1) * dilation (conv m)"
    and "causal m \<or> kernel_size (conv m) = 1"
    and "input_buffer (conv m) = None"
    and "shape3 B C T x" and "0 < B" and "0 < C" and "0 < T"
    and "0 \<le> dropout m" and "dropout m \<le> 1" and "\<not> training m \<or> dropout m = 0"
  shows "\<exists>ys m1 out. incremental_run noise m (time_steps x) = Inr (ys, m1)
     \<and> forward noise m x = Inr out \<and> cat_dim1 ys = transpose12 out"
proof -
  from forward_pointwise[OF assms(1-7) assms(9-15), of noise] obtain out where
    out: "forward noise m x = Inr out" "shape3 B C T out"
         "\<forall>b < B. \<forall>c < C. \<forall>t < T. out ! b ! c ! t =
           gate (glu m) (conv_at (conv m) (x ! b) t ! c) (conv_at (conv m) (x ! b) t ! (C + c))
             (x ! b ! c ! t)"
    by blast
  have m: "m\<lparr>conv := (conv m)\<lparr>input_buffer := None\<rparr>\<rparr> = m"
    using assms(8) by (metis conv1d.surjective conv1d.update_convs(8) highway_conv1d.surjective
        highway_conv1d.update_convs(5) old.unit.exhaust)
  have v: "(case None of
            None \<Rightarrow> replicate (length x) (replicate (receptive_field (conv m))
                       (replicate (nat (in_channels (conv m))) 0))
          | Some b \<Rightarrow> b) = map (\<lambda>xb. buffer_after (receptive_field (conv m)) C xb 0) x"
    by (simp add: buffer_after_0 assms(2) map_replicate_const)
  from incremental_run_from[where noise = noise, OF assms(1-5) assms(9-11) assms(13-15) _ v]
  obtain ys M where
    ys: "incremental_run noise m (time_steps x) = Inr (ys, M)" "length ys = T"
        "\<forall>i < T. shape3 B 1 C (ys ! i)
           \<and> (\<forall>b < B. \<forall>c < C. ys ! i ! b ! 0 ! c =
                 gate (glu m) (conv_at (conv m) (x ! b) i ! c)
                   (conv_at (conv m) (x ! b) i ! (C + c)) (x ! b ! c ! i))"
    unfolding m by auto
  have eq: "\<forall>t < T. \<forall>b < B. \<forall>c < C. ys ! t ! b ! 0 ! c = out ! b ! c ! t"
    using ys(3) out(3) by simp
  have "cat_dim1 ys = transpose12 out"
    by (rule cat_transpose[OF ys(2) assms(12,11) _ out(2) eq]) (use ys(3) in blast)
  then show ?thesis using ys(1) out(1) by blast
qed


text \<open>
  Claim C1, as stated, fails: a non-causal block with kernel size 3 looks one step ahead
  in batch mode, which no step-by-step run can do. On the input (1, 2) the batch result is
  (3/2, 1) and the concatenated incremental results are (1, 2).
\<close>

theorem incremental_differs_noncausal:
  "\<exists>ys m1 out.
     incremental_run (\<lambda>x. x)
       \<lparr>causal = False, dropout = 0, glu = False, training = False,
        conv = \<lparr>in_channels = 1, out_channels = 2, kernel_size = 3, padding = 1, dilation = 1,
                 weight = [[[0, 0, 1]], [[0, 0, 0]]], bias = [0, 0], input_buffer = None\<rparr>\<rparr>
       (time_steps [[[1, 2]]]) = Inr (ys, m1)
   \<and> forward (\<lambda>x. x)
       \<lparr>causal = False, dropout = 0, glu = False, training = False,
        conv = \<lparr>in_channels = 1, out_channels = 2, kernel_size = 3, padding = 1, dilation = 1,
                 weight = [[[0, 0, 1]], [[0, 0, 0]]], bias = [0, 0], input_buffer = None\<rparr>\<rparr>
       [[[1, 2]]] = Inr out
   \<and> cat_dim1 ys = [[[1], [2]]] \<and> transpose12 out = [[[3 / 2], [1]]]
   \<and> cat_dim1 ys \<noteq> transpose12 out"
proof -
  let ?m = "\<lparr>causal = False, dropout = 0, glu = False, training = False,
        conv = \<lparr>in_channels = 1, out_channels = 2, kernel_size = 3, padding = 1, dilation = 1,
                 weight = [[[0, 0, 1]], [[0, 0, 0]]], bias = [0, 0], input_buffer = None\<rparr>\<rparr>"
  have b: "forward (\<lambda>x. x) ?m [[[1, 2]]] = Inr [[[3 / 2, 1]]]"
    by (simp add: forward_def forward'_def F_dropout_def conv_forward_def conv_element_def
      bindE_Inr bindE_Inl rect_def size1_def size2_def conv_point_def dot_kernel_def pad_zeros_def
      split_dim1_def unpack2_def tmap_def ewise_def broadcast2_def sigmoid_0 upt_2 upt_3
      nth_Cons' nth_append)
  have i: "incremental_run (\<lambda>x. x) ?m (time_steps [[[1, 2]]]) =
     Inr ([[[[1]]], [[[2]]]],
       \<lparr>causal = False, dropout = 0, glu = False, training = False,
        conv = \<lparr>in_channels = 1, out_channels = 2, kernel_size = 3, padding = 1, dilation = 1,
               weight = [[[0, 0, 1]], [[0, 0, 0]]], bias = [0, 0],
               input_buffer = Some [[[0], [1], [2]]]\<rparr>\<rparr>)"
    by (simp add: time_steps_def incremental_forward_def forward'_def F_dropout_def
      conv_incremental_forward_def receptive_field_def channels_of_def
      bindE_Inr bindE_Inl size1_def size2_def conv_point_def dot_kernel_def
      split_last_def unpack2_def tmap_def ewise_def broadcast2_def sigmoid_0 upt_2 upt_3
      nth_Cons' nth_append numeral_3_eq_3 Let_def)
  have c: "cat_dim1 [[[[1]]], [[[2 :: real]]]] = [[[1], [2]]]"
    by (simp add: cat_dim1_def)
  have t: "transpose12 [[[3 / 2, 1 :: real]]] = [[[3 / 2], [1]]]"
    by (simp add: transpose12_def size1_def upt_2)
  have "cat_dim1 [[[[1]]], [[[2 :: real]]]] \<noteq> transpose12 [[[3 / 2, 1]]]"
    unfolding c t by simp
  then show ?thesis using b i c t by blast
qed

theorem incremental_matches_batch_example:
  "\<exists>ys m1 out.
     incremental_run (\<lambda>x. x)
       \<lparr>causal = True, dropout = 0, glu = False, training = False,
        conv = \<lparr>in_channels = 1, out_channels = 2, kernel_size = 2, padding = 1, dilation = 1,
                 weight = [[[1, 2]], [[0, 0]]], bias = [0, 0], input_buffer = None\<rparr>\<rparr>
       (time_steps [[[1, 2]]]) = Inr (ys, m1)
   \<and> forward (\<lambda>x. x)
       \<lparr>causal = True, dropout = 0, glu = False, training = False,
        conv = \<lparr>in_channels = 1, out_channels = 2, kernel_size = 2, padding = 1, dilation = 1,
                 weight = [[[1, 2]], [[0, 0]]], bias = [0, 0], input_buffer = None\<rparr>\<rparr>
       [[[1, 2]]] = Inr out
   \<and> cat_dim1 ys = transpose12 out \<and> out = [[[3 / 2, 7 / 2]]]"
proof -
  let ?m = "\<lparr>causal = True, dropout = 0, glu = False, training = False,
        conv = \<lparr>in_channels = 1, out_channels = 2, kernel_size = 2, padding = 1, dilation = 1,
                 weight = [[[1, 2]], [[0, 0]]], bias = [0, 0], input_buffer = None\<rparr>\<rparr>"
  have h: "wf_conv (conv ?m)" "in_channels (conv ?m) = int 1" "out_channels (conv ?m) = 2 * int 1"
    "1 \<le> kernel_size (conv ?m)" "1 \<le> dilation (conv ?m)"
    "padding (conv ?m) = (kernel_size (conv ?m) - 1) * dilation (conv ?m)"
    "causal ?m \<or> kernel_size (conv ?m) = 1" "input_buffer (conv ?m) = None"
    "shape3 1 1 2 [[[1, 2 :: real]]]" "(0 :: nat) < 1" "(0 :: nat) < 2"
    "0 \<le> dropout ?m" "dropout ?m \<le> 1" "\<not> training ?m \<or> dropout ?m = 0"
    by (simp_all add: wf_conv_def shape3_def)
  have b: "forward (\<lambda>x. x) ?m [[[1, 2]]] = Inr [[[3 / 2, 7 / 2]]]"
    by (simp add: forward_def forward'_def F_dropout_def conv_forward_def conv_element_def
      bindE_Inr bindE_Inl rect_def size1_def size2_def conv_point_def dot_kernel_def pad_zeros_def
      split_dim1_def unpack2_def tmap_def ewise_def broadcast2_def sigmoid_0 upt_2 upt_3
      nth_Cons' nth_append)
  from incremental_matches_batch[where noise = "\<lambda>x. x", OF h(1-9) h(10) h(10) h(11) h(12-14)]
  obtain ys m1 out where
    r: "incremental_run (\<lambda>x. x) ?m (time_steps [[[1, 2]]]) = Inr (ys, m1)"
       "forward (\<lambda>x. x) ?m [[[1, 2]]] = Inr out" "cat_dim1 ys = transpose12 out"
    by blast
  have "out = [[[3 / 2, 7 / 2]]]" using r(2) b by simp
  then show ?thesis using r by blast
qed

subsection \<open>Length-to-mask helper\<close>

lemma length_assign_prefix: "length (assign_prefix row l) = length row"
  by (simp add: assign_prefix_def slice_stop_def)

lemma nth_assign_prefix:
  assumes "0 \<le> l" and "t < length row"
  shows "assign_prefix row l ! t = (if int t < l then 1 else row ! t)"
proof -
  have s: "slice_stop (length row) l = min (nat l) (length row)"
    using assms by (simp add: slice_stop_def)
  show ?thesis
    using assms unfolding assign_prefix_def s
    by (auto simp: nth_append)
qed

lemma fill_mask_rows:
  assumes "idx + length ls = length msk"
  shows "\<exists>m. fill_mask idx ls msk = Inr m \<and> length m = length msk
           \<and> (\<forall>b < idx. m ! b = msk ! b)
           \<and> (\<forall>j < length ls. m ! (idx + j) = assign_prefix (msk ! (idx + j)) (ls ! j))"
  using assms
proof (induction ls arbitrary: idx msk)
  case Nil
  then show ?case by simp
next
  case (Cons l ls)
  let ?msk = "msk[idx := assign_prefix (msk ! idx) l]"
  have lt: "idx < length msk" using Cons.prems by simp
  have "Suc idx + length ls = length ?msk" using Cons.prems by simp
  from Cons.IH[OF this] obtain m where
    m: "fill_mask (Suc idx) ls ?msk = Inr m" "length m = length ?msk"
       "\<forall>b < Suc idx. m ! b = ?msk ! b"
       "\<forall>j < length ls. m ! (Suc idx + j) = assign_prefix (?msk ! (Suc idx + j)) (ls ! j)"
    by blast
  have a: "fill_mask idx (l # ls) msk = Inr m" using lt m(1) by simp
  have b: "\<forall>b < idx. m ! b = msk ! b" using m(3) by simp
  have c: "m ! (idx + j) = assign_prefix (msk ! (idx + j)) ((l # ls) ! j)"
    if "j < length (l # ls)" for j
  proof (cases j)
    case 0
    then show ?thesis using m(3) lt by simp
  next
    case (Suc k)
    then have "k < length ls" using that by simp
    then show ?thesis using m(4) Suc by simp
  qed
  show ?case using a b c m(2) by auto
qed

lemma not_byte: "NOT (0 :: 8 word) = 255" "NOT (1 :: 8 word) = 254"
  by simp_all

text \<open>
  What the helper returns for one non-negative length per example: a byte mask of shape
  (batch, max_time) holding 254 at the time indices below the example's length and 255
  at the others, so that no entry is zero.
\<close>

lemma get_mask_from_lengths_bytes:
  assumes "shape3 B T D memory"
    and "length memory_lengths = B"
    and "\<forall>l \<in> set memory_lengths. 0 \<le> l"
  shows "\<exists>msk. get_mask_from_lengths memory memory_lengths = Inr msk
           \<and> length msk = B
           \<and> (\<forall>b < B. length (msk ! b) = T
                 \<and> (\<forall>t < T. msk ! b ! t = (if int t < memory_lengths ! b then 254 else 255)))"
proof -
  let ?z = "replicate (size0 memory) (replicate (size1 memory) (0 :: 8 word))"
  let ?inv = "map (map (\<lambda>v :: 8 word. NOT v))"
  have B: "size0 memory = B" using assms(1) by (simp add: shape3_def size0_def)
  have T: "B = 0 \<or> size1 memory = T"
    using assms(1) by (cases memory) (auto simp: shape3_def size1_def)
  have "0 + length memory_lengths = length ?z" using assms(2) B by simp
  from fill_mask_rows[OF this] obtain m where
    m: "fill_mask 0 memory_lengths ?z = Inr m" "length m = length ?z"
       "\<forall>j < length memory_lengths. m ! (0 + j) = assign_prefix (?z ! (0 + j)) (memory_lengths ! j)"
    by blast
  have res: "get_mask_from_lengths memory memory_lengths = Inr (?inv m)"
    by (simp add: get_mask_from_lengths_def bindE_def m(1))
  have row: "m ! b = assign_prefix (replicate T 0) (memory_lengths ! b)" if "b < B" for b
    using m(3) that assms(2) B T by auto
  have ent: "length (?inv m ! b) = T
      \<and> (\<forall>t < T. ?inv m ! b ! t = (if int t < memory_lengths ! b then 254 else 255))"
    if "b < B" for b
  proof -
    have nn: "0 \<le> memory_lengths ! b" using assms(2,3) that by simp
    have lb: "b < length m" using m(2) B that by simp
    have len: "length (m ! b) = T" using row[OF that] by (simp add: length_assign_prefix)
    have "m ! b ! t = (if int t < memory_lengths ! b then 1 else 0)" if "t < T" for t
      using row[OF \<open>b < B\<close>] nth_assign_prefix[OF nn, of t "replicate T 0"] that by simp
    then show ?thesis using lb len by (simp add: not_byte)
  qed
  have len: "length (?inv m) = B" using m(2) B by simp
  show ?thesis using res len ent by blast
qed


end
